theory Spec2Isabelle
  imports Complex_Main "HOL-Library.Multiset" "HOL-Library.Stream"
begin

section \<open>FJSSP-SLGA: a self-learning genetic algorithm for flexible job-shop scheduling\<close>

text \<open>
  Shallow embedding of \<^verbatim>\<open>src/genetic/decoding.py\<close>, \<^verbatim>\<open>src/genetic/genetic.py\<close> and the
  reinforcement-learning part of \<^verbatim>\<open>src/main.py\<close>.

  Conventions. Python exceptions are values of \<open>error\<close>; a function that may raise
  returns \<open>error + 'a\<close> with \<open>Inl\<close> for the exception. Every call of the \<^verbatim>\<open>random\<close>
  module is replaced by an explicit argument holding the value drawn (or by a stream of
  draws where the number of calls depends on a loop). Times, machine numbers and job
  indices are natural numbers: the instance files hold non-negative integers. Python
  floats are modelled by \<open>real\<close>, which leaves rounding out.
\<close>

subsection \<open>Exceptions\<close>

datatype error = IndexError | TypeError | ValueError | ZeroDivisionError

definition bind_err :: "error + 'a \<Rightarrow> ('a \<Rightarrow> error + 'b) \<Rightarrow> error + 'b" where
  "bind_err r f = (case r of Inl e \<Rightarrow> Inl e | Inr v \<Rightarrow> f v)"

text \<open>\<^verbatim>\<open>xs[i]\<close> for a non-negative index \<open>i\<close>.\<close>

definition getitem :: "'a list \<Rightarrow> nat \<Rightarrow> error + 'a" where
  "getitem xs i = (if i < length xs then Inr (xs ! i) else Inl IndexError)"

text \<open>\<^verbatim>\<open>xs[i] = v\<close> for a non-negative index \<open>i\<close>.\<close>

definition setitem :: "'a list \<Rightarrow> nat \<Rightarrow> 'a \<Rightarrow> error + 'a list" where
  "setitem xs i v = (if i < length xs then Inr (xs[i := v]) else Inl IndexError)"

subsection \<open>The reinforcement-learning controller (main.py)\<close>

text \<open>
  \<^verbatim>\<open>reward = (best_time - new_best_time) / best_time\<close> on two Python integers: true
  division, which raises on a zero divisor.
\<close>

definition reward :: "int \<Rightarrow> int \<Rightarrow> error + real" where
  "reward best_time new_best_time =
     (if best_time = 0 then Inl ZeroDivisionError
      else Inr (real_of_int (best_time - new_best_time) / real_of_int best_time))"

text \<open>
  The Q-table is a matrix of shape \<open>N \<times> 2\<close>; rows are read and written only at
  \<open>gen mod N\<close> and columns only at an action \<open>0\<close> or \<open>1\<close>, so it is modelled as a function
  of row and column.
\<close>

type_synonym qtable = "nat \<Rightarrow> nat \<Rightarrow> real"

definition initialize_Q_table :: "nat \<Rightarrow> qtable" where
  "initialize_Q_table population_size = (\<lambda>s a. 0)"

definition update_Q_sarsa ::
  "qtable \<Rightarrow> nat \<Rightarrow> nat \<Rightarrow> real \<Rightarrow> nat \<Rightarrow> nat \<Rightarrow> real \<Rightarrow> real \<Rightarrow> qtable" where
  "update_Q_sarsa Q state action rwd next_state next_action alpha gamma =
     Q(state := (Q state)(action :=
       (1 - alpha) * Q state action + alpha * (rwd + gamma * Q next_state next_action)))"

definition update_Q_qlearning ::
  "qtable \<Rightarrow> nat \<Rightarrow> nat \<Rightarrow> real \<Rightarrow> nat \<Rightarrow> real \<Rightarrow> real \<Rightarrow> qtable" where
  "update_Q_qlearning Q state action rwd next_state alpha gamma =
     (let max_Q_next = max (Q next_state 0) (Q next_state 1)
      in Q(state := (Q state)(action :=
           (1 - alpha) * Q state action + alpha * (rwd + gamma * max_Q_next))))"

text \<open>
  The part of the generational loop of \<^verbatim>\<open>run_genetic_algorithm\<close> that owns the Q-table:
  the generation counter, the flag \<^verbatim>\<open>use_sarsa\<close> and the table. What one generation
  observes (the action taken, the reward, the next action) is the step's input.
\<close>

record rl_state =
  gen :: nat
  use_sarsa :: bool
  Q :: qtable

record observation =
  action :: nat
  rwd :: real
  next_action :: nat

definition rl_init :: "nat \<Rightarrow> rl_state" where
  "rl_init N = \<lparr>gen = 1, use_sarsa = True, Q = initialize_Q_table N\<rparr>"

definition rl_step :: "nat \<Rightarrow> real \<Rightarrow> real \<Rightarrow> rl_state \<Rightarrow> observation \<Rightarrow> rl_state" where
  "rl_step N alpha gamma st ob =
     (let state = gen st mod N;
          Q' = (if use_sarsa st
                then update_Q_sarsa (Q st) state (action ob) (rwd ob)
                       ((gen st + 1) mod N) (next_action ob) alpha gamma
                else update_Q_qlearning (Q st) state (action ob) (rwd ob)
                       ((gen st + 1) mod N) alpha gamma);
          use_sarsa' = (if gen st > N * 10 then False else use_sarsa st)
      in \<lparr>gen = gen st + 1, use_sarsa = use_sarsa', Q = Q'\<rparr>)"

text \<open>The state in which generation \<open>length obs + 1\<close> starts.\<close>

definition rl_run :: "nat \<Rightarrow> real \<Rightarrow> real \<Rightarrow> observation list \<Rightarrow> rl_state" where
  "rl_run N alpha gamma obs = foldl (rl_step N alpha gamma) (rl_init N) obs"

text \<open>
  Twenty generations of observations for a population of two: only generation 2 is
  rewarded, so that afterwards the row of state \<open>0\<close> holds two different values.
\<close>

definition quiet :: observation where
  "quiet = \<lparr>action = 1, rwd = 0, next_action = 1\<rparr>"

definition obs20 :: "observation list" where
  "obs20 = [quiet, \<lparr>action = 0, rwd = 1, next_action = 1\<rparr>,
     quiet, quiet, quiet, quiet, quiet, quiet, quiet, quiet, quiet,
     quiet, quiet, quiet, quiet, quiet, quiet, quiet, quiet, quiet]"

subsection \<open>The instance (parser.py) and the chromosome (encoding.py)\<close>

text \<open>
  An operation is the list of its machine options, each a dictionary with the keys
  \<^verbatim>\<open>machine\<close> (numbered from 1) and \<^verbatim>\<open>processingTime\<close>; a job is the list of its
  operations; the instance is the dictionary with the keys \<^verbatim>\<open>machinesNb\<close> and \<^verbatim>\<open>jobs\<close>.
\<close>

record moption =
  machine :: nat
  processingTime :: nat

type_synonym operation = "moption list"
type_synonym job = "operation list"

record problem =
  machinesNb :: nat
  jobs :: "job list"

text \<open>
  A chromosome is the pair \<open>(OS, MS)\<close>: \<open>OS\<close> lists job indices, \<open>MS\<close> lists, operation by
  operation in job-major order, an index into the operation's options.
\<close>

type_synonym chromosome = "nat list \<times> nat list"

text \<open>
  The legality invariants of the data model. \<open>OS\<close> has one entry per operation and job
  \<open>j\<close> occurs in it exactly as often as it has operations. \<open>MS\<close> has one entry per
  operation, each an index into the options of its operation.
\<close>

definition total_ops :: "problem \<Rightarrow> nat" where
  "total_ops parameters = sum_list (map length (jobs parameters))"

definition os_legal :: "problem \<Rightarrow> nat list \<Rightarrow> bool" where
  "os_legal parameters os \<longleftrightarrow>
     length os = total_ops parameters \<and>
     list_all (\<lambda>j. count_list os j = length (jobs parameters ! j))
       [0 ..< length (jobs parameters)]"

definition ms_legal :: "problem \<Rightarrow> nat list \<Rightarrow> bool" where
  "ms_legal parameters ms \<longleftrightarrow>
     list_all2 (\<lambda>v op. v < length op) ms (concat (jobs parameters))"

text \<open>
  A valid instance: every operation has at least one option and every option names one of
  the machines \<open>1, ..., machinesNb\<close>.
\<close>

definition valid_instance :: "problem \<Rightarrow> bool" where
  "valid_instance parameters \<longleftrightarrow>
     list_all (\<lambda>job. list_all (\<lambda>op. op \<noteq> [] \<and>
        list_all (\<lambda>opt. 1 \<le> machine opt \<and> machine opt \<le> machinesNb parameters) op) job)
       (jobs parameters)"

definition positive_times :: "problem \<Rightarrow> bool" where
  "positive_times parameters \<longleftrightarrow>
     list_all (\<lambda>job. list_all (\<lambda>op. list_all (\<lambda>opt. 1 \<le> processingTime opt) op) job)
       (jobs parameters)"

subsection \<open>Decoding (decoding.py)\<close>

text \<open>
  A placed operation is the tuple \<^verbatim>\<open>(name_task, prcTime, start_cstr, start)\<close>; the source
  reads \<^verbatim>\<open>job[1]\<close> for the processing time and \<^verbatim>\<open>job[3]\<close> for the start.
\<close>

type_synonym placed = "string \<times> nat \<times> nat \<times> nat"

definition p_name :: "placed \<Rightarrow> string" where "p_name t = fst t"
definition p_dur :: "placed \<Rightarrow> nat" where "p_dur t = fst (snd t)"
definition p_cstr :: "placed \<Rightarrow> nat" where "p_cstr t = fst (snd (snd t))"
definition p_start :: "placed \<Rightarrow> nat" where "p_start t = snd (snd (snd t))"

text \<open>\<^verbatim>\<open>split_ms\<close>: the slice \<^verbatim>\<open>ms[current:current+len(job)]\<close> for each job.\<close>

fun split_ms_loop :: "job list \<Rightarrow> nat list \<Rightarrow> nat \<Rightarrow> nat list list" where
  "split_ms_loop [] ms current = []"
| "split_ms_loop (job # rest) ms current =
     take (length job) (drop current ms) # split_ms_loop rest ms (current + length job)"

definition split_ms :: "problem \<Rightarrow> nat list \<Rightarrow> nat list list" where
  "split_ms pb_instance ms = split_ms_loop (jobs pb_instance) ms 0"

text \<open>\<^verbatim>\<open>is_free\<close>: the loop over \<^verbatim>\<open>range(start, start+duration)\<close>, reading \<^verbatim>\<open>tab[k]\<close>.\<close>

fun is_free_loop :: "bool list \<Rightarrow> nat list \<Rightarrow> error + bool" where
  "is_free_loop tab [] = Inr True"
| "is_free_loop tab (k # ks) =
     bind_err (getitem tab k) (\<lambda>v. if \<not> v then Inr False else is_free_loop tab ks)"

definition is_free :: "bool list \<Rightarrow> nat \<Rightarrow> nat \<Rightarrow> error + bool" where
  "is_free tab start duration = is_free_loop tab [start ..< start + duration]"

text \<open>
  \<^verbatim>\<open>find_first_available_place\<close>. The inner loop writes \<^verbatim>\<open>machine_used[k] = False\<close> over
  the range of one placed operation, the outer loop runs over the placed operations, the
  search loop returns the first \<open>k\<close> that \<^verbatim>\<open>is_free\<close> accepts; when the search loop ends
  the function falls off its end and returns \<^verbatim>\<open>None\<close>.
\<close>

fun mark_range :: "bool list \<Rightarrow> nat list \<Rightarrow> error + bool list" where
  "mark_range machine_used [] = Inr machine_used"
| "mark_range machine_used (k # ks) =
     bind_err (setitem machine_used k False) (\<lambda>tab. mark_range tab ks)"

fun mark_used :: "bool list \<Rightarrow> placed list \<Rightarrow> error + bool list" where
  "mark_used machine_used [] = Inr machine_used"
| "mark_used machine_used (job # rest) =
     bind_err (mark_range machine_used [p_start job ..< p_start job + p_dur job])
       (\<lambda>tab. mark_used tab rest)"

fun search_loop :: "bool list \<Rightarrow> nat \<Rightarrow> nat list \<Rightarrow> error + nat option" where
  "search_loop machine_used duration [] = Inr None"
| "search_loop machine_used duration (k # ks) =
     bind_err (is_free machine_used k duration)
       (\<lambda>free. if free then Inr (Some k) else search_loop machine_used duration ks)"

definition max_duration_list :: "placed list \<Rightarrow> nat list" where
  "max_duration_list machine_jobs = map (\<lambda>job. p_start job + p_dur job) machine_jobs"

definition find_first_available_place :: "nat \<Rightarrow> nat \<Rightarrow> placed list \<Rightarrow> error + nat option" where
  "find_first_available_place start_ctr duration machine_jobs =
     (let max_duration =
            (if machine_jobs \<noteq> []
             then max (Max (set (max_duration_list machine_jobs))) start_ctr + duration
             else start_ctr + duration);
          machine_used = replicate max_duration True
      in bind_err (mark_used machine_used machine_jobs)
           (\<lambda>tab. search_loop tab duration [start_ctr ..< length tab]))"

text \<open>Python's \<^verbatim>\<open>str\<close> of a non-negative integer, and the label \<^verbatim>\<open>"OP_{}-{}"\<close>.\<close>

fun str_nat :: "nat \<Rightarrow> string" where
  "str_nat n = (if n < 10 then [''0123456789'' ! n]
                else str_nat (n div 10) @ [''0123456789'' ! (n mod 10)])"

declare str_nat.simps [simp del]

definition name_task :: "nat \<Rightarrow> nat \<Rightarrow> string" where
  "name_task job idx = ''OP_'' @ str_nat (job + 1) @ ''-'' @ str_nat (idx + 1)"

text \<open>
  The index \<^verbatim>\<open>machine - 1\<close> into a list of length \<open>n\<close>: for \<^verbatim>\<open>machine = 0\<close> it is \<open>-1\<close>,
  which Python resolves to the last element.
\<close>

definition machine_slot :: "nat \<Rightarrow> nat \<Rightarrow> error + nat" where
  "machine_slot n machine_nb =
     (if machine_nb = 0 then (if n = 0 then Inl IndexError else Inr (n - 1))
      else if machine_nb - 1 < n then Inr (machine_nb - 1) else Inl IndexError)"

record decode_state =
  machine_operations :: "placed list list"
  indexes :: "nat list"
  start_task_cstr :: "nat list"

text \<open>One iteration of the loop \<^verbatim>\<open>for job in os\<close> of \<^verbatim>\<open>decode\<close>.\<close>

definition decode_step ::
  "problem \<Rightarrow> nat list list \<Rightarrow> decode_state \<Rightarrow> nat \<Rightarrow> error + decode_state" where
  "decode_step pb_instance ms_s st job =
     bind_err (getitem ms_s job) (\<lambda>ms_job.
     bind_err (getitem (indexes st) job) (\<lambda>idx.
     bind_err (getitem ms_job idx) (\<lambda>index_machine.
     bind_err (getitem (jobs pb_instance) job) (\<lambda>o_job.
     bind_err (getitem o_job idx) (\<lambda>op.
     bind_err (getitem op index_machine) (\<lambda>opt.
     bind_err (getitem (start_task_cstr st) job) (\<lambda>start_cstr.
     bind_err (machine_slot (length (machine_operations st)) (machine opt)) (\<lambda>m.
     bind_err (find_first_available_place start_cstr (processingTime opt)
                 (machine_operations st ! m)) (\<lambda>start.
       case start of
         None \<Rightarrow> Inl TypeError
       | Some s \<Rightarrow>
           Inr \<lparr>machine_operations =
                  (machine_operations st)[m := machine_operations st ! m @
                     [(name_task job idx, processingTime opt, start_cstr, s)]],
                indexes = (indexes st)[job := idx + 1],
                start_task_cstr = (start_task_cstr st)[job := s + processingTime opt]\<rparr>)))))))))"

fun decode_loop ::
  "problem \<Rightarrow> nat list list \<Rightarrow> decode_state \<Rightarrow> nat list \<Rightarrow> error + decode_state" where
  "decode_loop pb_instance ms_s st [] = Inr st"
| "decode_loop pb_instance ms_s st (job # os) =
     bind_err (decode_step pb_instance ms_s st job) (\<lambda>st'. decode_loop pb_instance ms_s st' os)"

definition decode_init :: "problem \<Rightarrow> nat list list \<Rightarrow> decode_state" where
  "decode_init pb_instance ms_s =
     \<lparr>machine_operations = replicate (machinesNb pb_instance) [],
      indexes = replicate (length ms_s) 0,
      start_task_cstr = replicate (length ms_s) 0\<rparr>"

definition decode :: "problem \<Rightarrow> nat list \<Rightarrow> nat list \<Rightarrow> error + placed list list" where
  "decode pb_instance os ms =
     (let ms_s = split_ms pb_instance ms
      in bind_err (decode_loop pb_instance ms_s (decode_init pb_instance ms_s) os)
           (\<lambda>st. Inr (machine_operations st)))"

text \<open>
  \<^verbatim>\<open>translate_decoded_to_gantt\<close>: the dictionary is built by inserting the keys
  \<^verbatim>\<open>"Machine-1"\<close>, \<^verbatim>\<open>"Machine-2"\<close>, ... in order, each bound to the list of
  \<^verbatim>\<open>[start, end, label]\<close> in the order of the machine's list.
\<close>

definition translate_decoded_to_gantt ::
  "placed list list \<Rightarrow> (string \<times> (nat \<times> nat \<times> string) list) list" where
  "translate_decoded_to_gantt decoded =
     map (\<lambda>(idx, machine_jobs).
            (''Machine-'' @ str_nat (idx + 1),
             map (\<lambda>operation. (p_start operation, p_start operation + p_dur operation,
                               p_name operation)) machine_jobs))
         (enumerate 0 decoded)"

text \<open>\<^verbatim>\<open>timeTaken\<close> (genetic.py): \<^verbatim>\<open>max\<close> of an empty list raises \<^verbatim>\<open>ValueError\<close>.\<close>

definition max_end :: "placed list \<Rightarrow> nat" where
  "max_end machine_jobs =
     fold (\<lambda>job max_d. if p_start job + p_dur job > max_d
                       then p_start job + p_dur job else max_d) machine_jobs 0"

definition timeTaken :: "chromosome \<Rightarrow> problem \<Rightarrow> error + nat" where
  "timeTaken os_ms pb_instance =
     bind_err (decode pb_instance (fst os_ms) (snd os_ms)) (\<lambda>decoded.
       if decoded = [] then Inl ValueError else Inr (Max (set (map max_end decoded))))"

subsection \<open>Crossover (genetic.py)\<close>

text \<open>
  Both order crossovers first scan a parent and build an offspring with the placeholder
  \<^verbatim>\<open>-1\<close> at the positions still to fill. Job indices are natural numbers, so the
  placeholder is \<open>None\<close> and a kept entry \<open>e\<close> is \<open>Some e\<close>. The second loop replaces each
  placeholder by \<^verbatim>\<open>kept.pop(0)\<close>, which raises \<^verbatim>\<open>IndexError\<close> on an empty list.

  In \<^verbatim>\<open>precedenceOperationCrossover\<close> an entry outside \<^verbatim>\<open>jobset1\<close> goes to the kept list
  and leaves a placeholder.
\<close>

fun pox_scan :: "nat list \<Rightarrow> nat list \<Rightarrow> nat option list \<times> nat list" where
  "pox_scan jobset1 [] = ([], [])"
| "pox_scan jobset1 (e # p) =
     (let (o1, pkept) = pox_scan jobset1 p
      in if e \<in> set jobset1 then (Some e # o1, pkept) else (None # o1, e # pkept))"

text \<open>
  In \<^verbatim>\<open>jobBasedCrossover\<close> an entry of the job set is copied and also goes to the kept
  list; any other entry leaves a placeholder.
\<close>

fun jbx_scan :: "nat list \<Rightarrow> nat list \<Rightarrow> nat option list \<times> nat list" where
  "jbx_scan jobset [] = ([], [])"
| "jbx_scan jobset (e # p) =
     (let (o1, pkept) = jbx_scan jobset p
      in if e \<in> set jobset then (Some e # o1, e # pkept) else (None # o1, pkept))"

fun fill_holes :: "nat option list \<Rightarrow> nat list \<Rightarrow> error + nat list" where
  "fill_holes [] kept = Inr []"
| "fill_holes (Some e # o1) kept = bind_err (fill_holes o1 kept) (\<lambda>r. Inr (e # r))"
| "fill_holes (None # o1) [] = Inl IndexError"
| "fill_holes (None # o1) (k # kept) = bind_err (fill_holes o1 kept) (\<lambda>r. Inr (k # r))"

text \<open>
  \<open>jobset1\<close> is the outcome of \<^verbatim>\<open>random.sample(jobsRange, sizeJobset1)\<close>; in
  \<^verbatim>\<open>precedenceOperationCrossover\<close> the range is \<^verbatim>\<open>range(1, jobNumber+1)\<close>, in
  \<^verbatim>\<open>jobBasedCrossover\<close> it is \<^verbatim>\<open>range(0, jobNumber)\<close>.
\<close>

definition precedenceOperationCrossover ::
  "nat list \<Rightarrow> nat list \<Rightarrow> problem \<Rightarrow> nat list \<Rightarrow> error + nat list \<times> nat list" where
  "precedenceOperationCrossover p1 p2 parameters jobset1 =
     (let (o1, p1kept) = pox_scan jobset1 p1;
          (o2, p2kept) = pox_scan jobset1 p2
      in bind_err (fill_holes o1 p2kept) (\<lambda>o1'.
         bind_err (fill_holes o2 p1kept) (\<lambda>o2'. Inr (o1', o2'))))"

definition jobBasedCrossover ::
  "nat list \<Rightarrow> nat list \<Rightarrow> problem \<Rightarrow> nat list \<Rightarrow> error + nat list \<times> nat list" where
  "jobBasedCrossover p1 p2 parameters jobset1 =
     (let jobsRange = [0 ..< length (jobs parameters)];
          jobset2 = filter (\<lambda>item. item \<notin> set jobset1) jobsRange;
          (o1, p1kept) = jbx_scan jobset1 p1;
          (o2, p2kept) = jbx_scan jobset2 p2
      in bind_err (fill_holes o1 p2kept) (\<lambda>o1'.
         bind_err (fill_holes o2 p1kept) (\<lambda>o2'. Inr (o1', o2'))))"

text \<open>
  \<^verbatim>\<open>twoPointCrossover\<close>; \<open>pos1\<close> and \<open>pos2\<close> are the two draws of
  \<^verbatim>\<open>random.randint(0, len(p1) - 1)\<close>, which raises \<^verbatim>\<open>ValueError\<close> for an empty \<open>p1\<close>.
\<close>

definition twoPointCrossover ::
  "'a list \<Rightarrow> 'a list \<Rightarrow> nat \<Rightarrow> nat \<Rightarrow> error + 'a list \<times> 'a list" where
  "twoPointCrossover p1 p2 draw1 draw2 =
     (if p1 = [] then Inl ValueError
      else
        let pos1 = (if draw1 > draw2 then draw2 else draw1);
            pos2 = (if draw1 > draw2 then draw1 else draw2);
            offspring1 = (if pos1 \<noteq> pos2
                          then take pos1 p1 @ take (pos2 - pos1) (drop pos1 p2) @ drop pos2 p1
                          else p1);
            offspring2 = (if pos1 \<noteq> pos2
                          then take pos1 p2 @ take (pos2 - pos1) (drop pos1 p1) @ drop pos2 p2
                          else p2)
        in Inr (offspring1, offspring2))"

text \<open>\<^verbatim>\<open>crossoverOS\<close>: \<open>coin\<close> is the outcome of \<^verbatim>\<open>random.choice([True, False])\<close>.\<close>

definition crossoverOS ::
  "nat list \<Rightarrow> nat list \<Rightarrow> problem \<Rightarrow> bool \<Rightarrow> nat list \<Rightarrow> error + nat list \<times> nat list" where
  "crossoverOS p1 p2 parameters coin jobset1 =
     (if coin then precedenceOperationCrossover p1 p2 parameters jobset1
      else jobBasedCrossover p1 p2 parameters jobset1)"

definition crossoverMS ::
  "nat list \<Rightarrow> nat list \<Rightarrow> nat \<Rightarrow> nat \<Rightarrow> error + nat list \<times> nat list" where
  "crossoverMS p1 p2 draw1 draw2 = twoPointCrossover p1 p2 draw1 draw2"

text \<open>
  What one iteration of the population-level \<^verbatim>\<open>crossover\<close> draws: the value of
  \<^verbatim>\<open>random.random()\<close> and, when it is below \<open>pc\<close>, the draws of the two operators.
\<close>

record xdraw =
  x_random :: real
  x_coin :: bool
  x_jobset1 :: "nat list"
  x_pos1 :: nat
  x_pos2 :: nat

function crossover_loop ::
  "chromosome list \<Rightarrow> problem \<Rightarrow> real \<Rightarrow> nat \<Rightarrow> chromosome list \<Rightarrow> xdraw stream
     \<Rightarrow> error + chromosome list" where
  "crossover_loop population parameters pc i newPop draws =
     (if i < length population then
        bind_err (getitem population i) (\<lambda>c1.
        bind_err (getitem population (i + 1)) (\<lambda>c2.
          if x_random (shd draws) < pc then
            bind_err (crossoverOS (fst c1) (fst c2) parameters
                        (x_coin (shd draws)) (x_jobset1 (shd draws))) (\<lambda>oOS.
            bind_err (crossoverMS (snd c1) (snd c2)
                        (x_pos1 (shd draws)) (x_pos2 (shd draws))) (\<lambda>oMS.
              crossover_loop population parameters pc (i + 2)
                (newPop @ [(fst oOS, fst oMS), (snd oOS, snd oMS)]) (stl draws)))
          else
            crossover_loop population parameters pc (i + 2)
              (newPop @ [c1, c2]) (stl draws)))
      else Inr newPop)"
  by pat_completeness auto
termination
  by (relation "measure (\<lambda>(population, parameters, pc, i, newPop, draws). length population - i)")
     auto

declare crossover_loop.simps [simp del]

definition crossover ::
  "chromosome list \<Rightarrow> problem \<Rightarrow> real \<Rightarrow> xdraw stream \<Rightarrow> error + chromosome list" where
  "crossover population parameters pc draws =
     crossover_loop population parameters pc 0 [] draws"

subsection \<open>A small instance\<close>

text \<open>
  Two machines and three jobs: job 1 runs on machine 2 for 5 and then on machine 1 for 2,
  job 2 runs for 3 on either machine, job 3 runs on machine 1 for 1.
\<close>

definition demo :: problem where
  "demo = \<lparr>machinesNb = 2,
            jobs = [[[\<lparr>machine = 2, processingTime = 5\<rparr>], [\<lparr>machine = 1, processingTime = 2\<rparr>]],
                    [[\<lparr>machine = 1, processingTime = 3\<rparr>, \<lparr>machine = 2, processingTime = 3\<rparr>]],
                    [[\<lparr>machine = 1, processingTime = 1\<rparr>]]]\<rparr>"

text \<open>Iteration draws for the small instance: one that crosses and one that does not.\<close>

definition cross_draw :: xdraw where
  "cross_draw = \<lparr>x_random = 0, x_coin = True, x_jobset1 = [1, 3], x_pos1 = 1, x_pos2 = 3\<rparr>"

definition keep_draw :: xdraw where
  "keep_draw = \<lparr>x_random = 1, x_coin = False, x_jobset1 = [], x_pos1 = 0, x_pos2 = 0\<rparr>"

subsection \<open>What a decoded schedule has to satisfy\<close>

text \<open>
  The half-open intervals \<open>[s, s + d)\<close> and \<open>[s', s' + d')\<close> overlap when they share a point;
  an operation \<open>[s, s + d)\<close> is clear of a machine's list when it overlaps none of the
  intervals placed there.
\<close>

definition overlap :: "nat \<Rightarrow> nat \<Rightarrow> nat \<Rightarrow> nat \<Rightarrow> bool" where
  "overlap s d s' d' \<longleftrightarrow> max s s' < min (s + d) (s' + d')"

definition clear_of :: "placed list \<Rightarrow> nat \<Rightarrow> nat \<Rightarrow> bool" where
  "clear_of machine_jobs s d \<longleftrightarrow>
     list_all (\<lambda>job. \<not> overlap s d (p_start job) (p_dur job)) machine_jobs"

text \<open>Time unit \<open>t\<close> lies inside one of the intervals placed on the machine.\<close>

definition covered :: "placed list \<Rightarrow> nat \<Rightarrow> bool" where
  "covered machine_jobs t \<longleftrightarrow>
     list_ex (\<lambda>job. p_start job \<le> t \<and> t < p_start job + p_dur job) machine_jobs"

text \<open>An instance whose only operation takes no time.\<close>

definition idle :: problem where
  "idle = \<lparr>machinesNb = 1, jobs = [[[\<lparr>machine = 1, processingTime = 0\<rparr>]]]\<rparr>"

text \<open>
  A machine's list is placed earliest when every entry starts no earlier than its start
  constraint, is clear of the entries placed before it, and no start between the
  constraint and the chosen start would have been clear of them.
\<close>

definition earliest_after :: "placed list \<Rightarrow> placed \<Rightarrow> bool" where
  "earliest_after before t \<longleftrightarrow>
     p_cstr t \<le> p_start t \<and> clear_of before (p_start t) (p_dur t) \<and>
     list_all (\<lambda>s. \<not> clear_of before s (p_dur t)) [p_cstr t ..< p_start t]"

definition earliest_placed :: "placed list \<Rightarrow> bool" where
  "earliest_placed machine_jobs \<longleftrightarrow>
     list_all (\<lambda>i. earliest_after (take i machine_jobs) (machine_jobs ! i))
       [0 ..< length machine_jobs]"

text \<open>No two entries of a machine's list overlap.\<close>

definition no_machine_overlap :: "placed list \<Rightarrow> bool" where
  "no_machine_overlap machine_jobs \<longleftrightarrow>
     list_all (\<lambda>i. list_all (\<lambda>i'.
         \<not> overlap (p_start (machine_jobs ! i)) (p_dur (machine_jobs ! i))
                    (p_start (machine_jobs ! i')) (p_dur (machine_jobs ! i')))
       [0 ..< i]) [0 ..< length machine_jobs]"

text \<open>The entries of a schedule that carry the label of operation \<open>k\<close> of job \<open>j\<close>.\<close>

definition placements :: "placed list list \<Rightarrow> nat \<Rightarrow> nat \<Rightarrow> placed list" where
  "placements sched j k = filter (\<lambda>t. p_name t = name_task j k) (concat sched)"

text \<open>
  Every operation of every job is placed exactly once; the start constraint of a job's
  first operation is \<open>0\<close>, the start constraint of a later operation is the completion of
  the operation before it, and so the later operation starts no earlier than that.
\<close>

definition precedence_kept :: "problem \<Rightarrow> placed list list \<Rightarrow> bool" where
  "precedence_kept parameters sched \<longleftrightarrow>
     list_all (\<lambda>j.
       list_all (\<lambda>k.
         length (placements sched j k) = 1 \<and>
         list_all (\<lambda>t.
           (if k = 0 then p_cstr t = 0
            else list_all (\<lambda>t'. p_cstr t = p_start t' + p_dur t' \<and>
                                p_start t \<ge> p_start t' + p_dur t')
                   (placements sched j (k - 1))))
           (placements sched j k))
         [0 ..< length (jobs parameters ! j)])
       [0 ..< length (jobs parameters)]"

text \<open>
  Every operation sits in the list of the machine its \<open>MS\<close> entry selects, with that
  option's processing time.
\<close>

definition on_selected :: "problem \<Rightarrow> nat list \<Rightarrow> placed list list \<Rightarrow> bool" where
  "on_selected parameters ms sched \<longleftrightarrow>
     list_all (\<lambda>j.
       list_all (\<lambda>k.
         let opt = jobs parameters ! j ! k ! (split_ms parameters ms ! j ! k)
         in list_ex (\<lambda>t. p_name t = name_task j k \<and> p_dur t = processingTime opt)
              (sched ! (machine opt - 1)))
         [0 ..< length (jobs parameters ! j)])
       [0 ..< length (jobs parameters)]"

text \<open>
  The invariant of the decoding loop after the entries \<open>seen\<close> of \<open>OS\<close>: the shapes of the
  three lists, the operation counters, the placement rule on every machine, the start
  constraints and the bookkeeping of labels.
\<close>

definition decode_inv :: "problem \<Rightarrow> nat list list \<Rightarrow> nat list \<Rightarrow> decode_state \<Rightarrow> bool" where
  "decode_inv parameters ms_s seen st \<longleftrightarrow>
     length (machine_operations st) = machinesNb parameters \<and>
     length (indexes st) = length (jobs parameters) \<and>
     length (start_task_cstr st) = length (jobs parameters) \<and>
     (\<forall>j < length (jobs parameters). indexes st ! j = count_list seen j) \<and>
     (\<forall>machine_jobs \<in> set (machine_operations st). earliest_placed machine_jobs) \<and>
     (\<forall>j < length (jobs parameters). indexes st ! j = 0 \<longrightarrow> start_task_cstr st ! j = 0) \<and>
     (\<forall>j < length (jobs parameters). \<forall>k.
        length (placements (machine_operations st) j k) = (if k < indexes st ! j then 1 else 0)) \<and>
     (\<forall>j < length (jobs parameters). \<forall>k. \<forall>t \<in> set (placements (machine_operations st) j k).
        (Suc k = indexes st ! j \<longrightarrow> p_start t + p_dur t = start_task_cstr st ! j) \<and>
        (k = 0 \<longrightarrow> p_cstr t = 0) \<and>
        (\<forall>t' \<in> set (placements (machine_operations st) j (k - 1)).
           0 < k \<longrightarrow> p_cstr t = p_start t' + p_dur t')) \<and>
     (\<forall>j < length (jobs parameters). \<forall>k < indexes st ! j.
        \<exists>t \<in> set (machine_operations st ! (machine (jobs parameters ! j ! k ! (ms_s ! j ! k)) - 1)).
          p_name t = name_task j k \<and>
          p_dur t = processingTime (jobs parameters ! j ! k ! (ms_s ! j ! k)))"

text \<open>
  Two states of decoding the small instance with \<open>OS = [0, 0, 1, 2]\<close> and
  \<open>MS = [0, 0, 0, 0]\<close>: after the two operations of job 1, and after the operation of
  job 2 that follows.
\<close>

definition demo_st2 :: decode_state where
  "demo_st2 = \<lparr>machine_operations = [[(''OP_1-2'', 2, 5, 5)], [(''OP_1-1'', 5, 0, 0)]],
               indexes = [2, 0, 0], start_task_cstr = [7, 0, 0]\<rparr>"

definition demo_st3 :: decode_state where
  "demo_st3 = \<lparr>machine_operations =
                 [[(''OP_1-2'', 2, 5, 5), (''OP_2-1'', 3, 0, 0)], [(''OP_1-1'', 5, 0, 0)]],
               indexes = [2, 1, 0], start_task_cstr = [7, 3, 0]\<rparr>"

subsection \<open>Selection (genetic.py)\<close>

text \<open>\<^verbatim>\<open>config.pr\<close>, the share of the population that elitism keeps.\<close>

definition config_pr :: real where
  "config_pr = 2 / 10"

text \<open>
  The keys that \<^verbatim>\<open>sorted\<close> computes, one call of \<^verbatim>\<open>timeTaken\<close> per individual in order;
  the first call that raises ends the sort.
\<close>

fun timeTaken_keys :: "chromosome list \<Rightarrow> problem \<Rightarrow> error + nat list" where
  "timeTaken_keys [] parameters = Inr []"
| "timeTaken_keys (cpl # rest) parameters =
     bind_err (timeTaken cpl parameters) (\<lambda>t.
     bind_err (timeTaken_keys rest parameters) (\<lambda>ts. Inr (t # ts)))"

text \<open>
  \<^verbatim>\<open>elitistSelection\<close>: \<^verbatim>\<open>sorted\<close> is stable, as \<open>sort_key\<close> is; the slice
  \<^verbatim>\<open>sortedPop[:keptPopSize]\<close> takes the first \<^verbatim>\<open>int(config.pr * len(population))\<close>
  individuals.
\<close>

definition elitistSelection :: "chromosome list \<Rightarrow> problem \<Rightarrow> error + chromosome list" where
  "elitistSelection population parameters =
     (let keptPopSize = nat \<lfloor>config_pr * real (length population)\<rfloor>
      in bind_err (timeTaken_keys population parameters) (\<lambda>keys.
           let sortedPop = map snd (sort_key fst (zip keys population))
           in Inr (take keptPopSize sortedPop)))"

text \<open>
  \<^verbatim>\<open>tournamentSelection\<close>: \<open>draw1\<close> and \<open>draw2\<close> are the two outcomes of
  \<^verbatim>\<open>random.randint(0, len(population) - 1)\<close>, which raises \<^verbatim>\<open>ValueError\<close> on an empty
  population; \<^verbatim>\<open>min\<close> keeps the first of two individuals with equal keys.
\<close>

definition tournamentSelection ::
  "chromosome list \<Rightarrow> problem \<Rightarrow> nat \<Rightarrow> nat \<Rightarrow> error + chromosome" where
  "tournamentSelection population parameters draw1 draw2 =
     (if population = [] then Inl ValueError
      else
        bind_err (getitem population draw1) (\<lambda>c1.
        bind_err (getitem population draw2) (\<lambda>c2.
        bind_err (timeTaken c1 parameters) (\<lambda>t1.
        bind_err (timeTaken c2 parameters) (\<lambda>t2.
          Inr (if t2 < t1 then c2 else c1))))))"

function selection_loop ::
  "chromosome list \<Rightarrow> problem \<Rightarrow> chromosome list \<Rightarrow> nat stream \<Rightarrow> error + chromosome list" where
  "selection_loop population parameters newPop draws =
     (if length newPop < length population then
        bind_err (tournamentSelection population parameters (shd draws) (shd (stl draws)))
          (\<lambda>c. selection_loop population parameters (newPop @ [c]) (stl (stl draws)))
      else Inr newPop)"
  by pat_completeness auto
termination
  by (relation "measure (\<lambda>(population, parameters, newPop, draws).
        length population - length newPop)") auto

declare selection_loop.simps [simp del]

definition selection ::
  "chromosome list \<Rightarrow> problem \<Rightarrow> nat stream \<Rightarrow> error + chromosome list" where
  "selection population parameters draws =
     bind_err (elitistSelection population parameters) (\<lambda>newPop.
       selection_loop population parameters newPop draws)"

subsection \<open>Mutation of the operation sequence (genetic.py)\<close>

text \<open>The slice \<^verbatim>\<open>p[i:j]\<close> for non-negative \<open>i\<close> and \<open>j\<close>.\<close>

definition slice :: "'a list \<Rightarrow> nat \<Rightarrow> nat \<Rightarrow> 'a list" where
  "slice p i j = take (j - i) (drop i p)"

text \<open>
  \<^verbatim>\<open>swappingMutation\<close>; \<open>draw1\<close> and \<open>draw2\<close> are the outcomes of
  \<^verbatim>\<open>random.randint(0, len(p) - 1)\<close>.
\<close>

definition swappingMutation :: "nat list \<Rightarrow> nat \<Rightarrow> nat \<Rightarrow> error + nat list" where
  "swappingMutation p draw1 draw2 =
     (if p = [] then Inl ValueError
      else if draw1 = draw2 then Inr p
      else
        let pos1 = (if draw1 > draw2 then draw2 else draw1);
            pos2 = (if draw1 > draw2 then draw1 else draw2)
        in bind_err (getitem p pos2) (\<lambda>e2.
           bind_err (getitem p pos1) (\<lambda>e1.
             Inr (take pos1 p @ [e2] @ slice p (pos1 + 1) pos2 @ [e1] @ drop (pos2 + 1) p))))"

text \<open>
  The two \<^verbatim>\<open>while\<close> loops of \<^verbatim>\<open>neighborhoodMutation\<close>. Each iteration draws a new
  position from the stream; a loop returns the position it stops at and the draws left.
  The condition of the second loop is an \<^verbatim>\<open>or\<close>: its right side is read only when the
  left side is false.
  Neither loop counts its iterations, so each is a partial function: \<open>None\<close> is a loop
  that runs forever.
\<close>

partial_function (option) pos2_loop ::
  "nat list \<Rightarrow> nat \<Rightarrow> nat \<Rightarrow> nat stream \<Rightarrow> (error + nat \<times> nat stream) option" where
  "pos2_loop p pos1 pos2 draws =
     (case getitem p pos2 of
        Inl e \<Rightarrow> Some (Inl e)
      | Inr v2 \<Rightarrow>
          (case getitem p pos1 of
             Inl e \<Rightarrow> Some (Inl e)
           | Inr v1 \<Rightarrow>
               if v2 = v1 then pos2_loop p pos1 (shd draws) (stl draws)
               else Some (Inr (pos2, draws))))"

partial_function (option) pos3_loop ::
  "nat list \<Rightarrow> nat \<Rightarrow> nat \<Rightarrow> nat \<Rightarrow> nat stream \<Rightarrow> (error + nat \<times> nat stream) option" where
  "pos3_loop p pos1 pos2 pos3 draws =
     (case getitem p pos3 of
        Inl e \<Rightarrow> Some (Inl e)
      | Inr v3 \<Rightarrow>
          (case getitem p pos2 of
             Inl e \<Rightarrow> Some (Inl e)
           | Inr v2 \<Rightarrow>
               if v3 = v2 then pos3_loop p pos1 pos2 (shd draws) (stl draws)
               else
                 (case getitem p pos1 of
                    Inl e \<Rightarrow> Some (Inl e)
                  | Inr v1 \<Rightarrow>
                      if v3 = v1 then pos3_loop p pos1 pos2 (shd draws) (stl draws)
                      else Some (Inr (pos3, draws)))))"

text \<open>
  The rest of \<^verbatim>\<open>neighborhoodMutation\<close>: the positions are sorted, \<open>choice\<close> is the index
  that \<^verbatim>\<open>random.choice\<close> draws in the list of \<^verbatim>\<open>itertools.permutations([e1, e2, e3])\<close>,
  and the chosen permutation is written to the three positions.
\<close>

definition rearrange :: "nat list \<Rightarrow> nat \<Rightarrow> nat \<Rightarrow> nat \<Rightarrow> nat \<Rightarrow> error + nat list" where
  "rearrange p pos1 pos2 pos3 choice =
     (let sortedPositions = sort [pos1, pos2, pos3];
          pos1 = sortedPositions ! 0;
          pos2 = sortedPositions ! 1;
          pos3 = sortedPositions ! 2
      in bind_err (getitem p pos1) (\<lambda>e1.
         bind_err (getitem p pos2) (\<lambda>e2.
         bind_err (getitem p pos3) (\<lambda>e3.
         bind_err (getitem [[e1, e2, e3], [e1, e3, e2], [e2, e1, e3],
                            [e2, e3, e1], [e3, e1, e2], [e3, e2, e1]] choice) (\<lambda>permutation.
           Inr (take pos1 p @ [permutation ! 0] @ slice p (pos1 + 1) pos2 @ [permutation ! 1] @
                slice p (pos2 + 1) pos3 @ [permutation ! 2] @ drop (pos3 + 1) p))))))"

definition neighborhoodMutation :: "nat list \<Rightarrow> nat stream \<Rightarrow> (error + nat list) option" where
  "neighborhoodMutation p draws =
     (if p = [] then Some (Inl ValueError)
      else
        let pos1 = shd draws
        in case pos2_loop p pos1 pos1 (stl draws) of
             None \<Rightarrow> None
           | Some (Inl e) \<Rightarrow> Some (Inl e)
           | Some (Inr (pos2, draws2)) \<Rightarrow>
               (case pos3_loop p pos1 pos2 pos1 draws2 of
                  None \<Rightarrow> None
                | Some (Inl e) \<Rightarrow> Some (Inl e)
                | Some (Inr (pos3, draws3)) \<Rightarrow>
                    Some (rearrange p pos1 pos2 pos3 (shd draws3))))"

text \<open>\<^verbatim>\<open>mutationOS\<close>: \<open>coin\<close> is the outcome of \<^verbatim>\<open>random.choice([True, False])\<close>.\<close>

definition mutationOS :: "nat list \<Rightarrow> bool \<Rightarrow> nat stream \<Rightarrow> (error + nat list) option" where
  "mutationOS p coin draws =
     (if coin then Some (swappingMutation p (shd draws) (shd (stl draws)))
      else neighborhoodMutation p draws)"

subsection \<open>Mutation of the machine selection (genetic.py)\<close>

text \<open>
  \<^verbatim>\<open>halfMutation\<close> assigns to elements of a list, so the lists live in a store: a
  reference is an address and the store maps each address to the list found there. The
  statement \<^verbatim>\<open>o = p\<close> makes \<open>o\<close> the reference \<open>p\<close>; \<^verbatim>\<open>o[i] = v\<close> updates the store at
  that reference and raises \<^verbatim>\<open>IndexError\<close> beyond the end of the list.

  \<open>positions\<close> is the outcome of \<^verbatim>\<open>random.sample(range(size), r)\<close>; each selected
  position takes the next draw of \<^verbatim>\<open>random.randint(0, len(op) - 1)\<close>, which raises
  \<^verbatim>\<open>ValueError\<close> for an operation without options. The two nested loops run over the
  operations of all jobs in order, counting them in \<open>i\<close>.
\<close>

type_synonym ref = nat
type_synonym store = "ref \<Rightarrow> nat list"

fun halfMutation_loop ::
  "store \<Rightarrow> ref \<Rightarrow> operation list \<Rightarrow> nat \<Rightarrow> nat list \<Rightarrow> nat stream \<Rightarrow> error + store" where
  "halfMutation_loop h o_ref [] i positions draws = Inr h"
| "halfMutation_loop h o_ref (op # ops) i positions draws =
     (if i \<in> set positions then
        (if op = [] then Inl ValueError
         else bind_err (setitem (h o_ref) i (shd draws)) (\<lambda>xs.
                halfMutation_loop (h(o_ref := xs)) o_ref ops (i + 1) positions (stl draws)))
      else halfMutation_loop h o_ref ops (i + 1) positions draws)"

text \<open>The result is the reference \<open>o\<close> that is returned and the store left behind.\<close>

definition halfMutation ::
  "store \<Rightarrow> ref \<Rightarrow> problem \<Rightarrow> nat list \<Rightarrow> nat stream \<Rightarrow> error + ref \<times> store" where
  "halfMutation h p parameters positions draws =
     (let o_ref = p
      in bind_err (halfMutation_loop h o_ref (concat (jobs parameters)) 0 positions draws)
           (\<lambda>h'. Inr (o_ref, h')))"

definition mutationMS ::
  "store \<Rightarrow> ref \<Rightarrow> problem \<Rightarrow> nat list \<Rightarrow> nat stream \<Rightarrow> error + ref \<times> store" where
  "mutationMS h p parameters positions draws = halfMutation h p parameters positions draws"

text \<open>A store that holds the machine selection \<open>[0, 0, 0, 0]\<close> at address \<open>0\<close>.\<close>

definition demo_store :: store where
  "demo_store = (\<lambda>r. [])(0 := [0, 0, 0, 0])"

text \<open>
  The best makespan of a population as the generational loop reads it:
  \<^verbatim>\<open>min(population, key=...)\<close> keeps the first individual with the smallest key and raises
  \<^verbatim>\<open>ValueError\<close> on an empty population; \<^verbatim>\<open>timeTaken\<close> is then called on that individual.
\<close>

fun min_by_key :: "nat \<Rightarrow> 'a \<Rightarrow> (nat \<times> 'a) list \<Rightarrow> 'a" where
  "min_by_key best_key best [] = best"
| "min_by_key best_key best ((k, x) # rest) =
     (if k < best_key then min_by_key k x rest else min_by_key best_key best rest)"

definition best_of :: "chromosome list \<Rightarrow> problem \<Rightarrow> error + chromosome" where
  "best_of population parameters =
     bind_err (timeTaken_keys population parameters) (\<lambda>keys.
       case zip keys population of
         [] \<Rightarrow> Inl ValueError
       | (k, cpl) # rest \<Rightarrow> Inr (min_by_key k cpl rest))"

text \<open>
  The reward of one generation (main.py): \<open>population\<close> is the population at the top of
  the iteration, \<open>new_population\<close> the one that selection, crossover and mutation have made
  of it.
\<close>

definition generation_reward ::
  "chromosome list \<Rightarrow> chromosome list \<Rightarrow> problem \<Rightarrow> error + real" where
  "generation_reward population new_population parameters =
     bind_err (best_of population parameters) (\<lambda>best_individual.
     bind_err (timeTaken best_individual parameters) (\<lambda>best_time.
     bind_err (best_of new_population parameters) (\<lambda>new_best_individual.
     bind_err (timeTaken new_best_individual parameters) (\<lambda>new_best_time.
       reward (int best_time) (int new_best_time)))))"

text \<open>
  \<open>b\<close> is the best makespan of a population: some individual has it and none has less.
\<close>

definition best_makespan :: "chromosome list \<Rightarrow> problem \<Rightarrow> nat \<Rightarrow> bool" where
  "best_makespan population parameters b \<longleftrightarrow>
     list_ex (\<lambda>c. timeTaken c parameters = Inr b) population \<and>
     list_all (\<lambda>c. case timeTaken c parameters of Inl e \<Rightarrow> False | Inr t \<Rightarrow> b \<le> t) population"

text \<open>
  Before the loop, \<^verbatim>\<open>run_genetic_algorithm\<close> draws the chart of the initial best
  individual. Of \<^verbatim>\<open>gantt.draw_chart\<close> only the bound of the time axis is modelled,
  \<^verbatim>\<open>max(10, max(max_len))\<close>, where \<^verbatim>\<open>max_len\<close> collects the end of every exported
  operation: on a schedule without operations \<^verbatim>\<open>max\<close> raises \<^verbatim>\<open>ValueError\<close>. The chart
  visits the machines in sorted order, which changes neither the ends collected nor their
  maximum.
\<close>

definition draw_chart_xlim :: "(string \<times> (nat \<times> nat \<times> string) list) list \<Rightarrow> error + nat" where
  "draw_chart_xlim data =
     (let max_len = concat (map (\<lambda>(machine_name, operations).
                                   map (\<lambda>op. fst (snd op)) operations) data)
      in if max_len = [] then Inl ValueError else Inr (max 10 (Max (set max_len))))"

section \<open>Properties\<close>

subsection \<open>Reward\<close>

text \<open>
  The expression of the reward has no test of its divisor: on a best makespan of \<open>0\<close> the
  division raises.
\<close>

lemma reward_zero_raises: "reward 0 b' = Inl ZeroDivisionError"
  by (simp add: reward_def)

subsection \<open>SARSA and Q-learning phases\<close>

lemma rl_run_snoc: "rl_run N a g (obs @ [ob]) = rl_step N a g (rl_run N a g obs) ob"
  by (simp add: rl_run_def)

lemma rl_run_gen: "gen (rl_run N a g obs) = length obs + 1"
proof (induction obs rule: rev_induct)
  case Nil
  show ?case by (simp add: rl_run_def rl_init_def)
next
  case (snoc ob obs)
  then show ?case by (simp add: rl_run_snoc rl_step_def Let_def)
qed

lemma rl_run_use_sarsa: "use_sarsa (rl_run N a g obs) = (length obs \<le> N * 10)"
proof (induction obs rule: rev_induct)
  case Nil
  then show ?case by (simp add: rl_run_def rl_init_def)
next
  case (snoc ob obs)
  have "use_sarsa (rl_run N a g (obs @ [ob])) =
          (if gen (rl_run N a g obs) > N * 10 then False else use_sarsa (rl_run N a g obs))"
    by (simp add: rl_run_snoc rl_step_def Let_def)
  then show ?case using snoc by (auto simp: rl_run_gen)
qed

lemma Q_obs20:
  "Q (rl_run 2 (1/10) (9/10) obs20) = (\<lambda>s a. if s = 0 \<and> a = 0 then 1/10 else 0)"
  by (simp add: obs20_def quiet_def rl_run_def rl_init_def rl_step_def Let_def
      update_Q_sarsa_def update_Q_qlearning_def initialize_Q_table_def fun_eq_iff)

text \<open>
  C6 (as amended). Let generation \<open>g\<close> start in the state reached after the \<open>g - 1\<close>
  earlier generations. If \<open>g \<le> 10 * N + 1\<close> the update of generation \<open>g\<close> is the SARSA rule,
  otherwise it is the Q-learning rule: the flag is cleared at the end of a generation
  \<open>g > 10 * N\<close>, after that generation's own update, so the first generation that uses
  Q-learning is \<open>10 * N + 2\<close>.
\<close>

theorem q_update_phase:
  assumes "g = length obs + 1" and "st = rl_run N alpha gamma obs"
  shows "gen st = g \<and>
         Q (rl_step N alpha gamma st ob) =
           (if g \<le> 10 * N + 1
            then update_Q_sarsa (Q st) (g mod N) (action ob) (rwd ob)
                   ((g + 1) mod N) (next_action ob) alpha gamma
            else update_Q_qlearning (Q st) (g mod N) (action ob) (rwd ob)
                   ((g + 1) mod N) alpha gamma)"
proof -
  have g: "gen st = g" using assms by (simp add: rl_run_gen)
  have u: "use_sarsa st = (g \<le> 10 * N + 1)"
    using assms by (auto simp: rl_run_use_sarsa)
  show ?thesis using g u by (simp add: rl_step_def Let_def)
qed

theorem q_update_phase_witness:
  "(21::nat) = length obs20 + 1 \<and>
   Q (rl_step 2 (1/10) (9/10) (rl_run 2 (1/10) (9/10) obs20) quiet) =
     update_Q_sarsa (Q (rl_run 2 (1/10) (9/10) obs20)) 1 1 0 0 1 (1/10) (9/10)"
proof -
  have l: "(21::nat) = length obs20 + 1" by (simp add: obs20_def)
  show ?thesis
    using l q_update_phase [OF l refl, of 2 "1/10" "9/10" quiet]
    by (simp add: quiet_def)
qed

text \<open>
  C6 as stated fails at \<open>N = 2\<close>, \<open>g = 21 = 10 * N + 1\<close>: the claim asks for the Q-learning
  rule there, the update performed is the SARSA one, and the two give different entries.
\<close>

theorem q_update_phase_counterexample:
  "length obs20 + 1 = 21 \<and> (21::nat) > 10 * 2 \<and>
   Q (rl_step 2 (1/10) (9/10) (rl_run 2 (1/10) (9/10) obs20)
        \<lparr>action = 0, rwd = 0, next_action = 1\<rparr>) 1 0
   \<noteq> update_Q_qlearning (Q (rl_run 2 (1/10) (9/10) obs20)) (21 mod 2) 0 0 (22 mod 2)
        (1/10) (9/10) 1 0"
proof -
  have "use_sarsa (rl_run 2 (1/10) (9/10) obs20)"
    by (simp add: rl_run_use_sarsa obs20_def)
  moreover have "gen (rl_run 2 (1/10) (9/10) obs20) = 21"
    by (simp add: rl_run_gen obs20_def)
  moreover have "length obs20 + 1 = 21"
    by (simp add: obs20_def)
  ultimately show ?thesis
    by (simp add: rl_step_def Let_def Q_obs20 update_Q_sarsa_def update_Q_qlearning_def)
qed

subsection \<open>Order crossover keeps the multiplicities\<close>

lemma bind_err_Inr [simp]: "bind_err (Inr v) f = f v"
  by (simp add: bind_err_def)

lemma bind_err_Inl [simp]: "bind_err (Inl e) f = Inl e"
  by (simp add: bind_err_def)

lemma pox_scan_eq:
  "pox_scan S p = (map (\<lambda>e. if e \<in> set S then Some e else None) p, filter (\<lambda>e. e \<notin> set S) p)"
  by (induction p) auto

lemma jbx_scan_eq:
  "jbx_scan S p = (map (\<lambda>e. if e \<in> set S then Some e else None) p, filter (\<lambda>e. e \<in> set S) p)"
  by (induction p) auto

lemma fill_holes_ok:
  "length (filter (\<lambda>x. x = None) hs) = length ks \<Longrightarrow>
   \<exists>r. fill_holes hs ks = Inr r \<and> length r = length hs \<and>
       mset r = mset (map the (filter (\<lambda>x. x \<noteq> None) hs)) + mset ks"
proof (induction hs ks rule: fill_holes.induct)
  case (1 kept)
  then show ?case by simp
next
  case (2 e o1 kept)
  then show ?case by auto
next
  case (3 o1)
  then show ?case by simp
next
  case (4 o1 k kept)
  then show ?case by auto
qed

lemma filter_map_holes:
  "map the (filter (\<lambda>x. x \<noteq> None) (map (\<lambda>e. if P e then Some e else None) p)) = filter P p"
  by (induction p) auto

lemma holes_count:
  "length (filter (\<lambda>x. x = None) (map (\<lambda>e. if P e then Some e else None) p))
     = length (filter (\<lambda>e. \<not> P e) p)"
  by (induction p) auto

lemma length_filter_mset: "length (filter P p) = size (filter_mset P (mset p))"
  by (metis mset_filter size_mset)

lemma fill_from_other:
  assumes "mset p1 = mset p2"
  shows "\<exists>r. fill_holes (map (\<lambda>e. if P e then Some e else None) p1) (filter (\<lambda>e. \<not> P e) p2) = Inr r
             \<and> length r = length p1 \<and> mset r = mset p1"
proof -
  let ?hs = "map (\<lambda>e. if P e then Some e else None) p1"
  let ?ks = "filter (\<lambda>e. \<not> P e) p2"
  have "length (filter (\<lambda>e. \<not> P e) p1) = length (filter (\<lambda>e. \<not> P e) p2)"
    using assms by (simp only: length_filter_mset)
  then have "length (filter (\<lambda>x. x = None) ?hs) = length ?ks"
    by (simp only: holes_count)
  from fill_holes_ok [OF this] obtain r where r: "fill_holes ?hs ?ks = Inr r"
    "length r = length ?hs" "mset r = mset (map the (filter (\<lambda>x. x \<noteq> None) ?hs)) + mset ?ks"
    by blast
  have "mset r = mset (filter P p1) + mset (filter (\<lambda>e. \<not> P e) p2)"
    using r(3) by (simp only: filter_map_holes)
  also have "\<dots> = filter_mset P (mset p1) + filter_mset (\<lambda>e. \<not> P e) (mset p1)"
    using assms by (simp only: mset_filter)
  also have "\<dots> = mset p1" by simp
  finally have "mset r = mset p1" .
  with r show ?thesis by auto
qed

lemma length_filter_less_Suc:
  "length (filter (\<lambda>x. x < Suc n) xs) = length (filter (\<lambda>x. x < n) xs) + count_list xs n"
  by (induction xs) (auto simp: less_Suc_eq)

lemma length_filter_less_sum:
  "length (filter (\<lambda>x. x < n) xs) = (\<Sum>j = 0..<(n::nat). count_list xs j)"
  by (induction n) (simp_all add: length_filter_less_Suc)

lemma os_legal_bound:
  assumes "os_legal parameters os" and "e \<in> set os"
  shows "e < length (jobs parameters)"
proof -
  let ?J = "length (jobs parameters)"
  have c: "\<And>j. j < ?J \<Longrightarrow> count_list os j = length (jobs parameters ! j)"
    using assms(1) by (simp add: os_legal_def list_all_iff)
  have "length (filter (\<lambda>x. x < ?J) os) = (\<Sum>j = 0..<?J. length (jobs parameters ! j))"
    using c by (simp add: length_filter_less_sum)
  also have "\<dots> = sum_list (map length (jobs parameters))"
    by (simp add: sum_list_sum_nth)
  also have "\<dots> = length os"
    using assms(1) by (simp add: os_legal_def total_ops_def)
  finally have "length (filter (\<lambda>x. \<not> x < ?J) os) = 0"
    using sum_length_filter_compl [of "\<lambda>x. x < ?J" os] by simp
  then have "\<forall>x \<in> set os. x < ?J"
    by (simp add: filter_empty_conv)
  with assms(2) show ?thesis by blast
qed

lemma os_legal_mset_eq:
  assumes "os_legal parameters p1" and "os_legal parameters p2"
  shows "mset p1 = mset p2"
proof (rule multiset_eqI)
  fix j
  show "count (mset p1) j = count (mset p2) j"
  proof (cases "j < length (jobs parameters)")
    case True
    then have "count_list p1 j = length (jobs parameters ! j)"
      "count_list p2 j = length (jobs parameters ! j)"
      using assms by (simp_all add: os_legal_def list_all_iff)
    then show ?thesis by (simp only: count_mset)
  next
    case False
    then have "j \<notin> set p1" "j \<notin> set p2"
      using assms os_legal_bound by blast+
    then have "count_list p1 j = 0" "count_list p2 j = 0"
      by (simp_all add: count_list_0_iff)
    then show ?thesis by (simp only: count_mset)
  qed
qed

lemma os_legal_mset:
  assumes "os_legal parameters p" and "mset r = mset p"
  shows "os_legal parameters r"
proof -
  have "length r = length p" using assms(2) by (rule mset_eq_length)
  moreover have "count_list r j = count_list p j" for j
    using assms(2) by (metis count_mset)
  ultimately show ?thesis using assms(1) by (simp add: os_legal_def)
qed

lemma pox_offspring:
  assumes "mset p1 = mset p2"
  shows "\<exists>o1 o2. precedenceOperationCrossover p1 p2 parameters jobset1 = Inr (o1, o2) \<and>
           length o1 = length p1 \<and> mset o1 = mset p1 \<and>
           length o2 = length p2 \<and> mset o2 = mset p2"
proof -
  let ?P = "\<lambda>e. e \<in> set jobset1"
  obtain o1 where o1: "fill_holes (map (\<lambda>e. if ?P e then Some e else None) p1)
        (filter (\<lambda>e. \<not> ?P e) p2) = Inr o1" "length o1 = length p1" "mset o1 = mset p1"
    using fill_from_other [OF assms, of ?P] by blast
  obtain o2 where o2: "fill_holes (map (\<lambda>e. if ?P e then Some e else None) p2)
        (filter (\<lambda>e. \<not> ?P e) p1) = Inr o2" "length o2 = length p2" "mset o2 = mset p2"
    using fill_from_other [OF assms [symmetric], of ?P] by blast
  have "precedenceOperationCrossover p1 p2 parameters jobset1 = Inr (o1, o2)"
    using o1(1) o2(1) by (simp add: precedenceOperationCrossover_def pox_scan_eq)
  with o1 o2 show ?thesis by blast
qed

lemma jbx_offspring:
  assumes "mset p1 = mset p2" and "\<forall>e \<in> set p1. e < length (jobs parameters)"
  shows "\<exists>o1 o2. jobBasedCrossover p1 p2 parameters jobset1 = Inr (o1, o2) \<and>
           length o1 = length p1 \<and> mset o1 = mset p1 \<and>
           length o2 = length p2 \<and> mset o2 = mset p2"
proof -
  let ?J = "length (jobs parameters)"
  let ?S2 = "filter (\<lambda>item. item \<notin> set jobset1) [0 ..< ?J]"
  let ?P1 = "\<lambda>e. e \<in> set jobset1"
  let ?P2 = "\<lambda>e. e \<in> set ?S2"
  have b2: "\<forall>e \<in> set p2. e < ?J"
    using assms by (metis set_mset_mset)
  have k1: "filter ?P2 p2 = filter (\<lambda>e. \<not> ?P1 e) p2"
    using b2 by (intro filter_cong) auto
  have k2: "filter ?P1 p1 = filter (\<lambda>e. \<not> ?P2 e) p1"
    using assms(2) by (intro filter_cong) auto
  obtain o1 where o1: "fill_holes (map (\<lambda>e. if ?P1 e then Some e else None) p1)
        (filter (\<lambda>e. \<not> ?P1 e) p2) = Inr o1" "length o1 = length p1" "mset o1 = mset p1"
    using fill_from_other [OF assms(1), of ?P1] by blast
  obtain o2 where o2: "fill_holes (map (\<lambda>e. if ?P2 e then Some e else None) p2)
        (filter (\<lambda>e. \<not> ?P2 e) p1) = Inr o2" "length o2 = length p2" "mset o2 = mset p2"
    using fill_from_other [OF assms(1) [symmetric], of ?P2] by blast
  have "jobBasedCrossover p1 p2 parameters jobset1 = Inr (o1, o2)"
    unfolding jobBasedCrossover_def Let_def jbx_scan_eq split_conv k1 k2
    using o1(1) o2(1) by simp
  with o1 o2 show ?thesis by blast
qed

text \<open>
  C2. If both parents have one entry per operation and hold every job \<open>j\<close> exactly as
  often as \<open>j\<close> has operations, then \<^verbatim>\<open>precedenceOperationCrossover\<close> and
  \<^verbatim>\<open>jobBasedCrossover\<close> return (they do not raise), whatever job set was sampled, and
  both offspring of each have the parents' length and again hold every job \<open>j\<close> exactly as
  often as \<open>j\<close> has operations.
\<close>

theorem crossover_keeps_multiplicity:
  assumes "os_legal parameters p1" and "os_legal parameters p2"
  shows "(\<exists>o1 o2. precedenceOperationCrossover p1 p2 parameters jobset1 = Inr (o1, o2) \<and>
            os_legal parameters o1 \<and> os_legal parameters o2 \<and>
            length o1 = length p1 \<and> length o2 = length p2) \<and>
         (\<exists>o1 o2. jobBasedCrossover p1 p2 parameters jobset1' = Inr (o1, o2) \<and>
            os_legal parameters o1 \<and> os_legal parameters o2 \<and>
            length o1 = length p1 \<and> length o2 = length p2)"
proof -
  have m: "mset p1 = mset p2" using assms by (rule os_legal_mset_eq)
  have b: "\<forall>e \<in> set p1. e < length (jobs parameters)"
    using assms(1) os_legal_bound by blast
  show ?thesis
    using pox_offspring [OF m, of parameters jobset1]
      jbx_offspring [OF m b, of jobset1'] assms
    by (meson os_legal_mset)
qed

theorem crossover_keeps_multiplicity_witness:
  "os_legal demo [0, 0, 1, 2] \<and> os_legal demo [2, 1, 0, 0] \<and>
   precedenceOperationCrossover [0, 0, 1, 2] [2, 1, 0, 0] demo [1, 3] = Inr ([2, 0, 1, 0], [0, 1, 0, 2]) \<and>
   os_legal demo [2, 0, 1, 0] \<and> os_legal demo [0, 1, 0, 2] \<and>
   jobBasedCrossover [0, 0, 1, 2] [2, 1, 0, 0] demo [0, 2] = Inr ([0, 0, 1, 2], [0, 1, 0, 2])"
proof -
  have h1: "os_legal demo [0, 0, 1, 2]" by code_simp
  have h2: "os_legal demo [2, 1, 0, 0]" by code_simp
  have p: "precedenceOperationCrossover [0, 0, 1, 2] [2, 1, 0, 0] demo [1, 3] = Inr ([2, 0, 1, 0], [0, 1, 0, 2])"
    by code_simp
  have j: "jobBasedCrossover [0, 0, 1, 2] [2, 1, 0, 0] demo [0, 2] = Inr ([0, 0, 1, 2], [0, 1, 0, 2])"
    by code_simp
  show ?thesis
    using h1 h2 p j crossover_keeps_multiplicity [OF h1 h2, of "[1, 3]" "[0, 2]"]
    by simp
qed

subsection \<open>Population-level crossover\<close>

lemma twoPointCrossover_ok:
  "p1 \<noteq> [] \<Longrightarrow> \<exists>r. twoPointCrossover p1 p2 d1 d2 = Inr r"
  by (simp add: twoPointCrossover_def Let_def)

lemma crossoverOS_ok:
  assumes "os_legal parameters p1" and "os_legal parameters p2"
  shows "\<exists>r. crossoverOS p1 p2 parameters coin jobset1 = Inr r"
proof -
  have m: "mset p1 = mset p2" using assms by (rule os_legal_mset_eq)
  have b: "\<forall>e \<in> set p1. e < length (jobs parameters)"
    using assms(1) os_legal_bound by blast
  show ?thesis
    using pox_offspring [OF m, of parameters jobset1] jbx_offspring [OF m b, of jobset1]
    by (auto simp: crossoverOS_def)
qed

lemma crossover_loop_size:
  assumes "list_all (\<lambda>c. os_legal parameters (fst c) \<and> snd c \<noteq> []) population"
    and "i \<le> length population"
  shows "(even (length population - i) \<longrightarrow>
           (\<exists>r. crossover_loop population parameters pc i newPop draws = Inr r \<and>
                length r = length newPop + (length population - i))) \<and>
         (odd (length population - i) \<longrightarrow>
           crossover_loop population parameters pc i newPop draws = Inl IndexError)"
  using assms
proof (induction population parameters pc i newPop draws rule: crossover_loop.induct)
  case (1 population parameters pc i newPop draws)
  show ?case
  proof (cases "i < length population")
    case False
    then show ?thesis using "1.prems" by (simp add: crossover_loop.simps)
  next
    case True
    note lt = True
    have g1: "getitem population i = Inr (population ! i)"
      using lt by (simp add: getitem_def)
    show ?thesis
    proof (cases "i + 1 < length population")
      case False
      then have "length population - i = 1" using lt by simp
      moreover have "crossover_loop population parameters pc i newPop draws = Inl IndexError"
        using lt False by (subst crossover_loop.simps) (simp add: g1 getitem_def)
      ultimately show ?thesis by simp
    next
      case True
      have g2: "getitem population (i + 1) = Inr (population ! (i + 1))"
        using True by (simp add: getitem_def)
      let ?c1 = "population ! i" and ?c2 = "population ! (i + 1)"
      have l1: "os_legal parameters (fst ?c1)" "snd ?c1 \<noteq> []"
        and l2: "os_legal parameters (fst ?c2)"
        using "1.prems"(1) lt True by (simp_all add: list_all_length)
      have le: "i + 2 \<le> length population" using True by simp
      have d: "length population - i = Suc (Suc (length population - (i + 2)))"
        using True by simp
      show ?thesis
      proof (cases "x_random (shd draws) < pc")
        case False
        have e: "crossover_loop population parameters pc i newPop draws =
                 crossover_loop population parameters pc (i + 2) (newPop @ [?c1, ?c2]) (stl draws)"
          using lt False g1 g2 by (subst crossover_loop.simps) simp
        show ?thesis
          using "1.IH"(2) [OF lt False "1.prems"(1) le, of ?c1 ?c2]
          unfolding e d by auto
      next
        case c: True
        obtain oOS where os: "crossoverOS (fst ?c1) (fst ?c2) parameters
            (x_coin (shd draws)) (x_jobset1 (shd draws)) = Inr oOS"
          using crossoverOS_ok [OF l1(1) l2] by blast
        obtain oMS where ms: "crossoverMS (snd ?c1) (snd ?c2)
            (x_pos1 (shd draws)) (x_pos2 (shd draws)) = Inr oMS"
          using twoPointCrossover_ok [OF l1(2)] unfolding crossoverMS_def by blast
        have e: "crossover_loop population parameters pc i newPop draws =
                 crossover_loop population parameters pc (i + 2)
                   (newPop @ [(fst oOS, fst oMS), (snd oOS, snd oMS)]) (stl draws)"
          using lt c g1 g2 os ms by (subst crossover_loop.simps) simp
        show ?thesis
          using "1.IH"(1) [OF lt c "1.prems"(1) le]
          unfolding e d by auto
      qed
    qed
  qed
qed

text \<open>
  C9 (as amended). On a population whose chromosomes have a legal \<open>OS\<close> and a non-empty
  \<open>MS\<close>, the population-level crossover iterates pairwise and, when the population size is
  even, returns a population of the same size. It has no case for an unpaired last
  individual: when the size is odd, reading the missing partner raises \<open>IndexError\<close> and
  no population is returned.
\<close>

theorem crossover_population_size:
  assumes "list_all (\<lambda>c. os_legal parameters (fst c) \<and> snd c \<noteq> []) population"
  shows "(even (length population) \<longrightarrow>
           (\<exists>newPop. crossover population parameters pc draws = Inr newPop \<and>
                     length newPop = length population)) \<and>
         (odd (length population) \<longrightarrow>
           crossover population parameters pc draws = Inl IndexError)"
  using crossover_loop_size [OF assms, of 0 pc "[]" draws]
  by (simp add: crossover_def)

theorem crossover_population_size_witness:
  "list_all (\<lambda>c. os_legal demo (fst c) \<and> snd c \<noteq> [])
     [([0, 0, 1, 2], [0, 0, 0, 0]), ([2, 1, 0, 0], [0, 0, 1, 0])] \<and>
   (\<exists>newPop. crossover [([0, 0, 1, 2], [0, 0, 0, 0]), ([2, 1, 0, 0], [0, 0, 1, 0])]
                demo (1/2) (sconst cross_draw) = Inr newPop \<and>
              length newPop = 2)"
proof -
  have h: "list_all (\<lambda>c. os_legal demo (fst c) \<and> snd c \<noteq> [])
     [([0, 0, 1, 2], [0, 0, 0, 0]), ([2, 1, 0, 0], [0, 0, 1, 0])]"
    by code_simp
  show ?thesis
    using h crossover_population_size [OF h, of "1/2" "sconst cross_draw"] by auto
qed

text \<open>
  C9 as stated fails on a population of three: the third individual is not carried
  through, the crossover raises.
\<close>

theorem crossover_odd_counterexample:
  "crossover [([0, 0, 1, 2], [0, 0, 0, 0]), ([2, 1, 0, 0], [0, 0, 1, 0]),
              ([0, 1, 2, 0], [0, 0, 0, 0])] demo (1/2) (sconst keep_draw) = Inl IndexError"
  by (simp add: crossover_def crossover_loop.simps getitem_def keep_draw_def)

subsection \<open>The earliest-gap search\<close>

lemma covered_iff:
  "covered js t \<longleftrightarrow> (\<exists>job \<in> set js. p_start job \<le> t \<and> t < p_start job + p_dur job)"
  by (simp add: covered_def list_ex_iff)

lemma overlap_iff: "overlap s d s' d' \<longleftrightarrow> (\<exists>t. s \<le> t \<and> t < s + d \<and> s' \<le> t \<and> t < s' + d')"
proof
  assume "overlap s d s' d'"
  then have "s \<le> max s s' \<and> max s s' < s + d \<and> s' \<le> max s s' \<and> max s s' < s' + d'"
    by (simp add: overlap_def)
  then show "\<exists>t. s \<le> t \<and> t < s + d \<and> s' \<le> t \<and> t < s' + d'" by blast
next
  assume "\<exists>t. s \<le> t \<and> t < s + d \<and> s' \<le> t \<and> t < s' + d'"
  then show "overlap s d s' d'" by (auto simp: overlap_def)
qed

lemma clear_of_iff: "clear_of js s d \<longleftrightarrow> (\<forall>t. s \<le> t \<and> t < s + d \<longrightarrow> \<not> covered js t)"
  by (auto simp: clear_of_def list_all_iff overlap_iff covered_iff)

lemma mark_range_ok:
  "\<forall>k \<in> set ks. k < length tab \<Longrightarrow>
   \<exists>tab'. mark_range tab ks = Inr tab' \<and> length tab' = length tab \<and>
          (\<forall>i < length tab. tab' ! i = (tab ! i \<and> i \<notin> set ks))"
proof (induction ks arbitrary: tab)
  case Nil
  then show ?case by simp
next
  case (Cons k ks)
  have s: "setitem tab k False = Inr (tab[k := False])"
    using Cons.prems by (simp add: setitem_def)
  have "\<forall>k' \<in> set ks. k' < length (tab[k := False])"
    using Cons.prems by simp
  from Cons.IH [OF this] obtain tab' where t: "mark_range (tab[k := False]) ks = Inr tab'"
    "length tab' = length tab"
    "\<forall>i < length tab. tab' ! i = ((tab[k := False]) ! i \<and> i \<notin> set ks)"
    by auto
  have "\<forall>i < length tab. tab' ! i = (tab ! i \<and> i \<notin> set (k # ks))"
  proof (intro allI impI)
    fix i assume i: "i < length tab"
    have "tab' ! i = ((tab[k := False]) ! i \<and> i \<notin> set ks)" using t(3) i by blast
    also have "(tab[k := False]) ! i = (tab ! i \<and> i \<noteq> k)"
      using i by (cases "i = k") simp_all
    finally show "tab' ! i = (tab ! i \<and> i \<notin> set (k # ks))" by auto
  qed
  then show ?case using s t(1,2) by simp
qed

lemma mark_used_ok:
  "\<forall>job \<in> set js. p_start job + p_dur job \<le> length tab \<Longrightarrow>
   \<exists>tab'. mark_used tab js = Inr tab' \<and> length tab' = length tab \<and>
          (\<forall>i < length tab. tab' ! i = (tab ! i \<and> \<not> covered js i))"
proof (induction js arbitrary: tab)
  case Nil
  then show ?case by (simp add: covered_iff)
next
  case (Cons job js)
  have "\<forall>k \<in> set [p_start job ..< p_start job + p_dur job]. k < length tab"
    using Cons.prems by auto
  from mark_range_ok [OF this] obtain tab1 where
    t1: "mark_range tab [p_start job ..< p_start job + p_dur job] = Inr tab1"
      "length tab1 = length tab"
      "\<forall>i < length tab. tab1 ! i = (tab ! i \<and> i \<notin> set [p_start job ..< p_start job + p_dur job])"
    by blast
  have "\<forall>job' \<in> set js. p_start job' + p_dur job' \<le> length tab1"
    using Cons.prems t1(2) by simp
  from Cons.IH [OF this] obtain tab' where
    t2: "mark_used tab1 js = Inr tab'" "length tab' = length tab1"
      "\<forall>i < length tab1. tab' ! i = (tab1 ! i \<and> \<not> covered js i)"
    by blast
  have "\<forall>i < length tab. tab' ! i = (tab ! i \<and> \<not> covered (job # js) i)"
    using t1(2,3) t2(3) by (auto simp: covered_iff)
  then show ?case using t1(1,2) t2(1,2) by simp
qed

lemma is_free_loop_ok:
  "\<forall>k \<in> set ks. k < length tab \<Longrightarrow> is_free_loop tab ks = Inr (\<forall>k \<in> set ks. tab ! k)"
  by (induction ks) (auto simp: getitem_def)

lemma is_free_ok:
  "k + d \<le> length tab \<Longrightarrow> is_free tab k d = Inr (\<forall>i. k \<le> i \<and> i < k + d \<longrightarrow> tab ! i)"
  using is_free_loop_ok [of "[k ..< k + d]" tab] by (auto simp: is_free_def)

lemma search_loop_found:
  assumes "\<forall>k \<in> set ks1. is_free tab k d = Inr False" and "is_free tab k0 d = Inr True"
  shows "search_loop tab d (ks1 @ k0 # ks2) = Inr (Some k0)"
  using assms by (induction ks1) auto

lemma search_loop_none:
  assumes "\<forall>k \<in> set ks. is_free tab k d = Inr False"
  shows "search_loop tab d ks = Inr None"
  using assms by (induction ks) auto

lemma ends_le_Max:
  assumes "job \<in> set js"
  shows "p_start job + p_dur job \<le> Max (set (max_duration_list js))"
  using assms by (auto simp: max_duration_list_def intro!: Max_ge)

lemma find_first_available_place_correct:
  assumes "0 < d"
  shows "\<exists>k. find_first_available_place c d js = Inr (Some k) \<and> c \<le> k \<and> clear_of js k d \<and>
             (\<forall>k'. c \<le> k' \<and> k' < k \<longrightarrow> \<not> clear_of js k' d)"
proof -
  define K where "K = (if js \<noteq> [] then max (Max (set (max_duration_list js))) c else c)"
  define L where "L = K + d"
  have ends: "\<forall>job \<in> set js. p_start job + p_dur job \<le> K"
    using ends_le_Max by (fastforce simp: K_def)
  have cK: "c \<le> K" by (simp add: K_def)
  have "\<forall>job \<in> set js. p_start job + p_dur job \<le> length (replicate L True)"
    using ends by (fastforce simp: L_def)
  from mark_used_ok [OF this] obtain tab where
    tab: "mark_used (replicate L True) js = Inr tab" "length tab = L"
      "\<forall>i < L. tab ! i = (\<not> covered js i)"
    by auto
  have beyond: "\<not> covered js i" if "K \<le> i" for i
    using ends that by (fastforce simp: covered_iff)
  have free: "is_free tab k d = Inr (clear_of js k d)" if "k \<le> K" for k
  proof -
    have "k + d \<le> length tab" using that tab(2) by (simp add: L_def)
    then have "is_free tab k d = Inr (\<forall>i. k \<le> i \<and> i < k + d \<longrightarrow> tab ! i)"
      by (rule is_free_ok)
    moreover have "(\<forall>i. k \<le> i \<and> i < k + d \<longrightarrow> tab ! i) = clear_of js k d"
      using tab(3) that by (auto simp: clear_of_iff L_def)
    ultimately show ?thesis by simp
  qed
  have clearK: "clear_of js K d"
    using beyond by (simp add: clear_of_iff)
  define k0 where "k0 = (LEAST k. c \<le> k \<and> clear_of js k d)"
  have k0: "c \<le> k0 \<and> clear_of js k0 d"
    unfolding k0_def using cK clearK by (rule LeastI [of _ K, OF conjI])
  have k0K: "k0 \<le> K"
    unfolding k0_def using cK clearK by (intro Least_le) simp
  have least: "\<not> clear_of js k' d" if "c \<le> k'" "k' < k0" for k'
    using that not_less_Least [of k' "\<lambda>k. c \<le> k \<and> clear_of js k d"] by (simp add: k0_def)
  have split: "[c ..< L] = [c ..< k0] @ k0 # [Suc k0 ..< L]"
  proof -
    have "k0 < L" using k0K assms by (simp add: L_def)
    then have "[c ..< L] = [c ..< k0] @ [k0 ..< L]"
      using k0 by (metis le_Suc_ex less_imp_le_nat upt_add_eq_append)
    then show ?thesis using \<open>k0 < L\<close> by (simp add: upt_conv_Cons)
  qed
  have s: "search_loop tab d [c ..< L] = Inr (Some k0)"
    unfolding split
  proof (rule search_loop_found)
    show "\<forall>k \<in> set [c ..< k0]. is_free tab k d = Inr False"
      using free least k0K by auto
    show "is_free tab k0 d = Inr True"
      using free [OF k0K] k0 by simp
  qed
  have md: "(if js \<noteq> [] then max (Max (set (max_duration_list js))) c + d else c + d) = L"
    by (simp add: K_def L_def)
  have "find_first_available_place c d js = Inr (Some k0)"
    unfolding find_first_available_place_def Let_def md
    using tab(1,2) s by simp
  then show ?thesis using k0 least by blast
qed

lemma find_first_available_place_zero:
  assumes "\<forall>job \<in> set js. p_start job + p_dur job \<le> c"
  shows "find_first_available_place c 0 js = Inr None"
proof -
  have m: "js \<noteq> [] \<Longrightarrow> max (Max (set (max_duration_list js))) c = c"
    using assms by (auto simp: max_duration_list_def max_def)
  have md: "(if js \<noteq> [] then max (Max (set (max_duration_list js))) c + 0 else c + 0) = c"
    using m by simp
  have "\<forall>job \<in> set js. p_start job + p_dur job \<le> length (replicate c True)"
    using assms by simp
  from mark_used_ok [OF this] obtain tab where
    "mark_used (replicate c True) js = Inr tab" "length tab = c"
    by auto
  then show ?thesis
    unfolding find_first_available_place_def Let_def md by simp
qed

text \<open>
  C4. The claim asks for a start time for every duration \<open>dur \<ge> 0\<close>. For an operation of
  duration \<open>0\<close> whose start constraint is not before the end of the last placed interval
  (on an empty machine, or right after the operation before it) the search loop runs over
  an empty range and the function falls off its end: it returns \<^verbatim>\<open>None\<close>.
\<close>

theorem first_available_place_none:
  "find_first_available_place 0 0 [] = Inr None \<and>
   find_first_available_place 3 0 [(''OP_1-1'', 3, 0, 0)] = Inr None"
  by code_simp

subsection \<open>Labels\<close>

lemma digit_inj:
  assumes "a < 10" and "b < 10" and "''0123456789'' ! a = ''0123456789'' ! b"
  shows "a = b"
proof -
  have "distinct ''0123456789''" by simp
  moreover have "a < length ''0123456789''" "b < length ''0123456789''" using assms by simp_all
  ultimately show ?thesis using assms(3) nth_eq_iff_index_eq by blast
qed

lemma digit_not_dash: "a < 10 \<Longrightarrow> ''0123456789'' ! a \<noteq> CHR ''-''"
proof -
  assume "a < 10"
  then have "''0123456789'' ! a \<in> set ''0123456789''" by (intro nth_mem) simp
  then show ?thesis by auto
qed

lemma str_nat_not_Nil: "str_nat n \<noteq> []"
  by (subst str_nat.simps) simp

lemma str_nat_no_dash: "CHR ''-'' \<notin> set (str_nat n)"
proof (induction n rule: str_nat.induct)
  case (1 n)
  show ?case
  proof (cases "n < 10")
    case True
    then show ?thesis using digit_not_dash [of n] by (subst str_nat.simps) auto
  next
    case False
    have "n mod 10 < 10" by simp
    then show ?thesis
      using False "1.IH" digit_not_dash [of "n mod 10"] by (subst str_nat.simps) auto
  qed
qed

lemma str_nat_inj: "str_nat n = str_nat m \<Longrightarrow> n = m"
proof (induction n arbitrary: m rule: str_nat.induct)
  case (1 n)
  show ?case
  proof (cases "n < 10")
    case n: True
    show ?thesis
    proof (cases "m < 10")
      case True
      then show ?thesis
        using n "1.prems" digit_inj [of n m]
        by (simp add: str_nat.simps [of n] str_nat.simps [of m])
    next
      case False
      then show ?thesis
        using n "1.prems" str_nat_not_Nil [of "m div 10"]
        by (simp add: str_nat.simps [of n] str_nat.simps [of m])
    qed
  next
    case n: False
    show ?thesis
    proof (cases "m < 10")
      case True
      then show ?thesis
        using n "1.prems" str_nat_not_Nil [of "n div 10"]
        by (simp add: str_nat.simps [of n] str_nat.simps [of m])
    next
      case False
      then have e: "str_nat (n div 10) = str_nat (m div 10)"
        "''0123456789'' ! (n mod 10) = ''0123456789'' ! (m mod 10)"
        using n "1.prems" by (simp_all add: str_nat.simps [of n] str_nat.simps [of m])
      have "n div 10 = m div 10" using "1.IH" [OF n e(1)] .
      moreover have "n mod 10 = m mod 10"
        using digit_inj [OF _ _ e(2)] by simp
      ultimately show ?thesis by (metis div_mult_mod_eq)
    qed
  qed
qed

lemma name_task_inj: "name_task j k = name_task j' k' \<longleftrightarrow> j = j' \<and> k = k'"
proof
  assume "name_task j k = name_task j' k'"
  then have "str_nat (j + 1) @ CHR ''-'' # str_nat (k + 1) =
             str_nat (j' + 1) @ CHR ''-'' # str_nat (k' + 1)"
    by (simp add: name_task_def)
  then have "str_nat (j + 1) = str_nat (j' + 1) \<and> str_nat (k + 1) = str_nat (k' + 1)"
    using append_Cons_eq_iff [OF str_nat_no_dash str_nat_no_dash] by blast
  then show "j = j' \<and> k = k'" using str_nat_inj by fastforce
qed simp

subsection \<open>The slices of MS\<close>

lemma split_ms_loop_all2:
  "list_all2 P (drop current ms) (concat js) \<Longrightarrow>
   list_all2 (list_all2 P) (split_ms_loop js ms current) js"
proof (induction js arbitrary: current)
  case Nil
  then show ?case by simp
next
  case (Cons job js)
  from Cons.prems obtain us vs where uv: "drop current ms = us @ vs" "length us = length job"
    "list_all2 P us job" "list_all2 P vs (concat js)"
    by (auto simp: list_all2_append2)
  have t: "take (length job) (drop current ms) = us" using uv(1,2) by simp
  have "drop (current + length job) ms = vs"
    using uv(1,2) by (metis add.commute append_eq_conv_conj drop_drop)
  then have "list_all2 (list_all2 P) (split_ms_loop js ms (current + length job)) js"
    using Cons.IH uv(4) by simp
  then show ?case using t uv(3) by simp
qed

lemma split_ms_legal:
  assumes "ms_legal parameters ms"
  shows "list_all2 (list_all2 (\<lambda>v op. v < length op)) (split_ms parameters ms) (jobs parameters)"
  using assms split_ms_loop_all2 [of _ 0 ms "jobs parameters"]
  by (simp add: ms_legal_def split_ms_def)

subsection \<open>Appending a placement\<close>

lemma earliest_placed_snoc:
  "earliest_placed (js @ [t]) \<longleftrightarrow> earliest_placed js \<and> earliest_after js t"
  by (auto simp: earliest_placed_def list_all_iff nth_append)

lemma concat_update_snoc:
  "m < length xss \<Longrightarrow> mset (concat (xss[m := xss ! m @ [t]])) = add_mset t (mset (concat xss))"
proof (induction xss arbitrary: m)
  case Nil
  then show ?case by simp
next
  case (Cons xs xss)
  then show ?case by (cases m) simp_all
qed

lemma placements_snoc:
  assumes "m < length sched"
  shows "mset (placements (sched[m := sched ! m @ [t]]) j k) =
         (if p_name t = name_task j k then {#t#} else {#}) + mset (placements sched j k)"
  unfolding placements_def mset_filter concat_update_snoc [OF assms] by simp

subsection \<open>One decoding step keeps the invariant\<close>

lemma set_placements_snoc:
  assumes "m < length sched"
  shows "set (placements (sched[m := sched ! m @ [t]]) j k) =
         (if p_name t = name_task j k then {t} else {}) \<union> set (placements sched j k)"
proof -
  have "set_mset (mset (placements (sched[m := sched ! m @ [t]]) j k)) =
        set_mset ((if p_name t = name_task j k then {#t#} else {#}) + mset (placements sched j k))"
    by (simp only: placements_snoc [OF assms])
  then show ?thesis by (simp split: if_splits)
qed

lemma length_placements_snoc:
  assumes "m < length sched"
  shows "length (placements (sched[m := sched ! m @ [t]]) j k) =
         (if p_name t = name_task j k then 1 else 0) + length (placements sched j k)"
proof -
  have "size (mset (placements (sched[m := sched ! m @ [t]]) j k)) =
        size ((if p_name t = name_task j k then {#t#} else {#}) + mset (placements sched j k))"
    by (simp only: placements_snoc [OF assms])
  then show ?thesis by (simp split: if_splits)
qed

lemma valid_option:
  assumes "valid_instance parameters" and "j < length (jobs parameters)"
    and "k < length (jobs parameters ! j)" and "i < length (jobs parameters ! j ! k)"
  shows "1 \<le> machine (jobs parameters ! j ! k ! i) \<and>
         machine (jobs parameters ! j ! k ! i) \<le> machinesNb parameters"
  using assms by (simp add: valid_instance_def list_all_length)

lemma positive_option:
  assumes "positive_times parameters" and "j < length (jobs parameters)"
    and "k < length (jobs parameters ! j)" and "i < length (jobs parameters ! j ! k)"
  shows "1 \<le> processingTime (jobs parameters ! j ! k ! i)"
  using assms by (simp add: positive_times_def list_all_length)

lemma decode_step_inv:
  assumes inv: "decode_inv parameters ms_s seen st"
    and shape: "list_all2 (list_all2 (\<lambda>v op. v < length op)) ms_s (jobs parameters)"
    and valid: "valid_instance parameters" and pos: "positive_times parameters"
    and j: "job < length (jobs parameters)"
    and c: "count_list seen job < length (jobs parameters ! job)"
  shows "\<exists>st'. decode_step parameters ms_s st job = Inr st' \<and>
               decode_inv parameters ms_s (seen @ [job]) st'"
proof -
  let ?J = "length (jobs parameters)"
  let ?opt = "\<lambda>j k. jobs parameters ! j ! k ! (ms_s ! j ! k)"
  define mo where "mo = machine_operations st"
  define ix where "ix = indexes st"
  define rd where "rd = start_task_cstr st"
  note inv' = inv [unfolded decode_inv_def, folded mo_def ix_def rd_def]
  note i1 = inv' [THEN conjunct1]
  note i2 = inv' [THEN conjunct2, THEN conjunct1]
  note i3 = inv' [THEN conjunct2, THEN conjunct2, THEN conjunct1]
  note i4 = inv' [THEN conjunct2, THEN conjunct2, THEN conjunct2, THEN conjunct1]
  note i5 = inv' [THEN conjunct2, THEN conjunct2, THEN conjunct2, THEN conjunct2, THEN conjunct1]
  note i6 = inv' [THEN conjunct2, THEN conjunct2, THEN conjunct2, THEN conjunct2, THEN conjunct2, THEN conjunct1]
  note i7 = inv' [THEN conjunct2, THEN conjunct2, THEN conjunct2, THEN conjunct2, THEN conjunct2, THEN conjunct2, THEN conjunct1]
  note i8 = inv' [THEN conjunct2, THEN conjunct2, THEN conjunct2, THEN conjunct2, THEN conjunct2, THEN conjunct2, THEN conjunct2, THEN conjunct1]
  note i9 = inv' [THEN conjunct2, THEN conjunct2, THEN conjunct2, THEN conjunct2, THEN conjunct2, THEN conjunct2, THEN conjunct2, THEN conjunct2]
  define idx where "idx = ix ! job"
  have idx: "idx < length (jobs parameters ! job)" using i4 j c by (simp add: idx_def)
  have lms: "length ms_s = ?J" using shape by (rule list_all2_lengthD)
  have sj: "list_all2 (\<lambda>v op. v < length op) (ms_s ! job) (jobs parameters ! job)"
    using shape j by (simp add: list_all2_conv_all_nth)
  have lmj: "length (ms_s ! job) = length (jobs parameters ! job)"
    using sj by (rule list_all2_lengthD)
  have im: "ms_s ! job ! idx < length (jobs parameters ! job ! idx)"
    using sj idx by (simp add: list_all2_conv_all_nth)
  define opt where "opt = ?opt job idx"
  have mach: "1 \<le> machine opt" "machine opt \<le> machinesNb parameters"
    using valid_option [OF valid j idx im] by (simp_all add: opt_def)
  have dur: "0 < processingTime opt"
    using positive_option [OF pos j idx im] by (simp add: opt_def)
  define m where "m = machine opt - 1"
  have m: "m < length mo" using mach i1 by (simp add: m_def)
  define cstr where "cstr = rd ! job"
  obtain s where s: "find_first_available_place cstr (processingTime opt) (mo ! m) = Inr (Some s)"
    "cstr \<le> s" "clear_of (mo ! m) s (processingTime opt)"
    "\<forall>k'. cstr \<le> k' \<and> k' < s \<longrightarrow> \<not> clear_of (mo ! m) k' (processingTime opt)"
    using find_first_available_place_correct [OF dur] by blast
  define t where "t = (name_task job idx, processingTime opt, cstr, s)"
  have t: "p_name t = name_task job idx" "p_dur t = processingTime opt" "p_cstr t = cstr"
    "p_start t = s"
    by (simp_all add: t_def p_name_def p_dur_def p_cstr_def p_start_def)
  define mo' where "mo' = mo[m := mo ! m @ [t]]"
  define ix' where "ix' = ix[job := idx + 1]"
  define rd' where "rd' = rd[job := s + processingTime opt]"
  define st' where "st' = \<lparr>machine_operations = mo', indexes = ix', start_task_cstr = rd'\<rparr>"
  have slot: "machine_slot (length mo) (machine opt) = Inr m"
    using mach m by (simp add: machine_slot_def m_def)
  have step: "decode_step parameters ms_s st job = Inr st'"
    unfolding decode_step_def
    using j idx lms lmj im i2 i3 slot s(1)
    by (simp add: getitem_def mo_def [symmetric] ix_def [symmetric] rd_def [symmetric]
        idx_def [symmetric] opt_def [symmetric] cstr_def [symmetric] st'_def mo'_def ix'_def
        rd'_def t_def)
  have nm: "(p_name t = name_task j k) = (j = job \<and> k = idx)" for j k
    by (auto simp: t name_task_inj)
  have n1: "length mo' = machinesNb parameters" using i1 by (simp add: mo'_def)
  have n2: "length ix' = ?J" using i2 by (simp add: ix'_def)
  have n3: "length rd' = ?J" using i3 by (simp add: rd'_def)
  have ixj: "ix' ! j' = (if j' = job then idx + 1 else ix ! j')" if "j' < ?J" for j'
    using that i2 by (simp add: ix'_def nth_list_update)
  have rdj: "rd' ! j' = (if j' = job then s + processingTime opt else rd ! j')" if "j' < ?J" for j'
    using that i3 by (simp add: rd'_def nth_list_update)
  have n4: "\<forall>j' < ?J. ix' ! j' = count_list (seen @ [job]) j'"
    using i4 ixj by (simp add: idx_def)
  have ea: "earliest_after (mo ! m) t"
    using s(2,3,4) by (simp add: earliest_after_def t list_all_iff)
  have n5: "\<forall>machine_jobs \<in> set mo'. earliest_placed machine_jobs"
  proof
    fix machine_jobs assume "machine_jobs \<in> set mo'"
    then have "machine_jobs = mo ! m @ [t] \<or> machine_jobs \<in> set mo"
      using set_update_subset_insert [of mo m "mo ! m @ [t]"] by (auto simp: mo'_def)
    moreover have "earliest_placed (mo ! m)" using i5 m by simp
    ultimately show "earliest_placed machine_jobs"
      using i5 ea by (auto simp: earliest_placed_snoc)
  qed
  have n6: "\<forall>j' < ?J. ix' ! j' = 0 \<longrightarrow> rd' ! j' = 0"
    using i6 ixj rdj by simp
  have lp: "length (placements mo' j' k) = (if j' = job \<and> k = idx then 1 else 0) +
              length (placements mo j' k)" for j' k
    unfolding mo'_def length_placements_snoc [OF m] nm by simp
  have sp: "set (placements mo' j' k) = (if j' = job \<and> k = idx then {t} else {}) \<union>
              set (placements mo j' k)" for j' k
    unfolding mo'_def set_placements_snoc [OF m] nm by simp
  have n7: "\<forall>j' < ?J. \<forall>k. length (placements mo' j' k) = (if k < ix' ! j' then 1 else 0)"
  proof (intro allI impI)
    fix j' k assume j': "j' < ?J"
    show "length (placements mo' j' k) = (if k < ix' ! j' then 1 else 0)"
      using i7 j' ixj [OF j'] by (auto simp: lp idx_def)
  qed
  have old: "k < ix ! j'" if "j' < ?J" "t0 \<in> set (placements mo j' k)" for j' k t0
  proof (rule ccontr)
    assume "\<not> k < ix ! j'"
    then have "length (placements mo j' k) = 0" using i7 that(1) by simp
    then show False using that(2) by simp
  qed
  have n8: "\<forall>j' < ?J. \<forall>k. \<forall>t0 \<in> set (placements mo' j' k).
        (Suc k = ix' ! j' \<longrightarrow> p_start t0 + p_dur t0 = rd' ! j') \<and>
        (k = 0 \<longrightarrow> p_cstr t0 = 0) \<and>
        (\<forall>t' \<in> set (placements mo' j' (k - 1)). 0 < k \<longrightarrow> p_cstr t0 = p_start t' + p_dur t')"
  proof (intro allI impI ballI)
    fix j' k t0 assume j': "j' < ?J" and t0: "t0 \<in> set (placements mo' j' k)"
    show "(Suc k = ix' ! j' \<longrightarrow> p_start t0 + p_dur t0 = rd' ! j') \<and>
        (k = 0 \<longrightarrow> p_cstr t0 = 0) \<and>
        (\<forall>t' \<in> set (placements mo' j' (k - 1)). 0 < k \<longrightarrow> p_cstr t0 = p_start t' + p_dur t')"
    proof (cases "t0 \<in> set (placements mo j' k)")
      case True
      have k: "k < ix ! j'" using old [OF j' True] .
      have a: "Suc k = ix' ! j' \<longrightarrow> p_start t0 + p_dur t0 = rd' ! j'"
        using i8 j' True k ixj [OF j'] rdj [OF j'] by (auto simp: idx_def)
      have b: "k = 0 \<longrightarrow> p_cstr t0 = 0" using i8 j' True by blast
      have "p_cstr t0 = p_start t' + p_dur t'"
        if "t' \<in> set (placements mo' j' (k - 1))" "0 < k" for t'
      proof -
        have "\<not> (j' = job \<and> k - 1 = idx)" using k that(2) by (auto simp: idx_def)
        then have "t' \<in> set (placements mo j' (k - 1))" using that(1) by (auto simp: sp)
        then show ?thesis using i8 j' True that(2) by blast
      qed
      then show ?thesis using a b by blast
    next
      case False
      then have e: "j' = job" "k = idx" "t0 = t" using t0 by (auto simp: sp split: if_splits)
      have a: "p_start t0 + p_dur t0 = rd' ! j'" using rdj [OF j'] e by (simp add: t)
      have b: "k = 0 \<longrightarrow> p_cstr t0 = 0" using i6 j e by (simp add: t cstr_def idx_def)
      have "p_cstr t0 = p_start t' + p_dur t'"
        if "t' \<in> set (placements mo' j' (k - 1))" "0 < k" for t'
      proof -
        have "\<not> (j' = job \<and> k - 1 = idx)" using e that(2) by auto
        then have "t' \<in> set (placements mo j' (k - 1))" using that(1) by (auto simp: sp)
        moreover have "Suc (k - 1) = ix ! j'" using e that(2) by (simp add: idx_def)
        ultimately have "p_start t' + p_dur t' = rd ! j'" using i8 j' by blast
        then show ?thesis using e by (simp add: t cstr_def)
      qed
      then show ?thesis using a b by blast
    qed
  qed
  have mo'n: "mo' ! n = (if m = n then mo ! m @ [t] else mo ! n)" for n
    using m by (simp add: mo'_def nth_list_update)
  have n9: "\<forall>j' < ?J. \<forall>k < ix' ! j'.
        \<exists>t0 \<in> set (mo' ! (machine (?opt j' k) - 1)).
          p_name t0 = name_task j' k \<and> p_dur t0 = processingTime (?opt j' k)"
  proof (intro allI impI)
    fix j' k assume j': "j' < ?J" and k: "k < ix' ! j'"
    show "\<exists>t0 \<in> set (mo' ! (machine (?opt j' k) - 1)).
          p_name t0 = name_task j' k \<and> p_dur t0 = processingTime (?opt j' k)"
    proof (cases "j' = job \<and> k = idx")
      case True
      then have "machine (?opt j' k) - 1 = m" by (simp add: opt_def m_def)
      then have "t \<in> set (mo' ! (machine (?opt j' k) - 1))"
        by (simp only: mo'n) simp
      moreover have "p_name t = name_task j' k \<and> p_dur t = processingTime (?opt j' k)"
        using True by (simp add: t opt_def)
      ultimately show ?thesis by blast
    next
      case False
      then have "k < ix ! j'" using k ixj [OF j'] by (auto simp: idx_def split: if_splits)
      then obtain t0 where "t0 \<in> set (mo ! (machine (?opt j' k) - 1))"
        "p_name t0 = name_task j' k \<and> p_dur t0 = processingTime (?opt j' k)"
        using i9 j' by blast
      moreover have "set (mo ! n) \<subseteq> set (mo' ! n)" for n by (auto simp: mo'n)
      ultimately show ?thesis by blast
    qed
  qed
  have "decode_inv parameters ms_s (seen @ [job]) st'"
    unfolding decode_inv_def st'_def decode_state.simps
    by (intro conjI n1 n2 n3 n4 n5 n6 n7 n8 n9)
  with step show ?thesis by blast
qed

subsection \<open>The decoding loop\<close>

lemma decode_loop_inv:
  assumes shape: "list_all2 (list_all2 (\<lambda>v op. v < length op)) ms_s (jobs parameters)"
    and valid: "valid_instance parameters" and pos: "positive_times parameters"
    and inv: "decode_inv parameters ms_s seen st"
    and bound: "\<forall>j. count_list seen j + count_list rest j \<le>
                  (if j < length (jobs parameters) then length (jobs parameters ! j) else 0)"
  shows "\<exists>st'. decode_loop parameters ms_s st rest = Inr st' \<and>
               decode_inv parameters ms_s (seen @ rest) st'"
  using inv bound
proof (induction rest arbitrary: seen st)
  case Nil
  then show ?case by simp
next
  case (Cons job rest)
  have b: "count_list seen job + count_list (job # rest) job \<le>
           (if job < length (jobs parameters) then length (jobs parameters ! job) else 0)"
    using Cons.prems(2) by blast
  have j: "job < length (jobs parameters)"
    using b by (simp split: if_splits)
  have c: "count_list seen job < length (jobs parameters ! job)"
    using b j by simp
  obtain st1 where st1: "decode_step parameters ms_s st job = Inr st1"
    "decode_inv parameters ms_s (seen @ [job]) st1"
    using decode_step_inv [OF Cons.prems(1) shape valid pos j c] by blast
  have "\<forall>j. count_list (seen @ [job]) j + count_list rest j \<le>
            (if j < length (jobs parameters) then length (jobs parameters ! j) else 0)"
  proof
    fix j
    have "count_list (seen @ [job]) j + count_list rest j =
          count_list seen j + count_list (job # rest) j" by simp
    then show "count_list (seen @ [job]) j + count_list rest j \<le>
            (if j < length (jobs parameters) then length (jobs parameters ! j) else 0)"
      using Cons.prems(2) by metis
  qed
  from Cons.IH [OF st1(2) this] obtain st' where
    "decode_loop parameters ms_s st1 rest = Inr st'"
    "decode_inv parameters ms_s ((seen @ [job]) @ rest) st'" by blast
  then show ?case using st1(1) by simp
qed

lemma concat_replicate_Nil: "concat (replicate n []) = []"
  by (induction n) simp_all

lemma decode_init_inv:
  assumes "length ms_s = length (jobs parameters)"
  shows "decode_inv parameters ms_s [] (decode_init parameters ms_s)"
  using assms
  by (simp add: decode_inv_def decode_init_def placements_def concat_replicate_Nil
      earliest_placed_def)

lemma earliest_placed_nth:
  assumes "earliest_placed js" and "i < length js"
  shows "earliest_after (take i js) (js ! i)"
  using assms by (simp add: earliest_placed_def list_all_iff)

lemma earliest_no_overlap:
  assumes "earliest_placed js"
  shows "no_machine_overlap js"
proof -
  have "\<not> overlap (p_start (js ! i)) (p_dur (js ! i)) (p_start (js ! i')) (p_dur (js ! i'))"
    if "i < length js" "i' < i" for i i'
  proof -
    have "clear_of (take i js) (p_start (js ! i)) (p_dur (js ! i))"
      using earliest_placed_nth [OF assms that(1)] by (simp add: earliest_after_def)
    moreover have "js ! i' \<in> set (take i js)"
      using that by (metis length_take less_imp_le_nat min.absorb2 nth_mem nth_take order_less_trans)
    ultimately show ?thesis by (simp add: clear_of_def list_all_iff)
  qed
  then show ?thesis by (simp add: no_machine_overlap_def list_all_iff)
qed

lemma placed_after_constraint:
  assumes "\<forall>js \<in> set sched. earliest_placed js" and "t \<in> set (concat sched)"
  shows "p_cstr t \<le> p_start t"
proof -
  from assms(2) obtain js where js: "js \<in> set sched" "t \<in> set js" by auto
  then obtain i where i: "i < length js" "js ! i = t" by (auto simp: in_set_conv_nth)
  have "earliest_after (take i js) (js ! i)"
    using earliest_placed_nth [OF _ i(1)] assms(1) js(1) by blast
  then show ?thesis using i(2) by (simp add: earliest_after_def)
qed

subsection \<open>Decoded schedules\<close>

text \<open>
  Decoding is right whenever no processing time is zero: for a valid instance with
  processing times of at least 1 and a legal chromosome, \<^verbatim>\<open>decode\<close> returns a schedule
  with one list per machine in which every operation sits on its selected machine, at the
  smallest start that is not before its job's readiness time and clear of what was
  placed on that machine before; hence placements on a machine never overlap and every
  operation of a job starts no earlier than the completion of the one before it.
\<close>

lemma decode_positive_times:
  assumes valid: "valid_instance parameters" and pos: "positive_times parameters"
    and os: "os_legal parameters os" and ms: "ms_legal parameters ms"
  shows "\<exists>sched. decode parameters os ms = Inr sched \<and>
           length sched = machinesNb parameters \<and>
           on_selected parameters ms sched \<and>
           list_all earliest_placed sched \<and>
           list_all no_machine_overlap sched \<and>
           precedence_kept parameters sched"
proof -
  let ?J = "length (jobs parameters)"
  define ms_s where "ms_s = split_ms parameters ms"
  have shape: "list_all2 (list_all2 (\<lambda>v op. v < length op)) ms_s (jobs parameters)"
    using split_ms_legal [OF ms] by (simp add: ms_s_def)
  have cnt: "count_list os j = length (jobs parameters ! j)" if "j < ?J" for j
    using os that by (simp add: os_legal_def list_all_iff)
  have "\<forall>j. count_list [] j + count_list os j \<le>
          (if j < ?J then length (jobs parameters ! j) else 0)"
  proof
    fix j
    show "count_list [] j + count_list os j \<le>
          (if j < ?J then length (jobs parameters ! j) else 0)"
    proof (cases "j < ?J")
      case True
      then show ?thesis using cnt by simp
    next
      case False
      then have "j \<notin> set os" using os_legal_bound [OF os] by blast
      then show ?thesis using False by (simp add: count_list_0_iff)
    qed
  qed
  from decode_loop_inv [OF shape valid pos decode_init_inv this]
  obtain st where st: "decode_loop parameters ms_s (decode_init parameters ms_s) os = Inr st"
    "decode_inv parameters ms_s os st"
    using list_all2_lengthD [OF shape] by auto
  define sched where "sched = machine_operations st"
  note inv' = st(2) [unfolded decode_inv_def, folded sched_def]
  note i1 = inv' [THEN conjunct1]
  note i4 = inv' [THEN conjunct2, THEN conjunct2, THEN conjunct2, THEN conjunct1]
  note i5 = inv' [THEN conjunct2, THEN conjunct2, THEN conjunct2, THEN conjunct2, THEN conjunct1]
  note i7 = inv' [THEN conjunct2, THEN conjunct2, THEN conjunct2, THEN conjunct2, THEN conjunct2, THEN conjunct2, THEN conjunct1]
  note i8 = inv' [THEN conjunct2, THEN conjunct2, THEN conjunct2, THEN conjunct2, THEN conjunct2, THEN conjunct2, THEN conjunct2, THEN conjunct1]
  note i9 = inv' [THEN conjunct2, THEN conjunct2, THEN conjunct2, THEN conjunct2, THEN conjunct2, THEN conjunct2, THEN conjunct2, THEN conjunct2]
  have ix: "indexes st ! j = length (jobs parameters ! j)" if "j < ?J" for j
    using i4 cnt that by simp
  have d: "decode parameters os ms = Inr sched"
    using st(1) by (simp add: decode_def ms_s_def sched_def)
  have sel: "on_selected parameters ms sched"
    unfolding on_selected_def Let_def list_all_iff list_ex_iff ms_s_def [symmetric]
    using i9 ix by simp
  have ep: "list_all earliest_placed sched"
    using i5 by (simp add: list_all_iff)
  have no: "list_all no_machine_overlap sched"
    using i5 earliest_no_overlap by (simp add: list_all_iff)
  have pk: "length (placements sched j k) = 1 \<and>
        (\<forall>t \<in> set (placements sched j k).
           if k = 0 then p_cstr t = 0
           else \<forall>t' \<in> set (placements sched j (k - 1)).
                  p_cstr t = p_start t' + p_dur t' \<and> p_start t' + p_dur t' \<le> p_start t)"
    if j: "j < ?J" and k: "k < length (jobs parameters ! j)" for j k
  proof -
    have l: "length (placements sched j k) = 1" using i7 j k ix by simp
    have "if k = 0 then p_cstr t = 0
           else \<forall>t' \<in> set (placements sched j (k - 1)).
                  p_cstr t = p_start t' + p_dur t' \<and> p_start t' + p_dur t' \<le> p_start t"
      if t: "t \<in> set (placements sched j k)" for t
    proof (cases "k = 0")
      case True
      then show ?thesis using i8 j t by simp
    next
      case False
      have "t \<in> set (concat sched)" using t by (simp add: placements_def)
      then have "p_cstr t \<le> p_start t" using placed_after_constraint [OF i5] by blast
      moreover have "\<forall>t' \<in> set (placements sched j (k - 1)). p_cstr t = p_start t' + p_dur t'"
        using i8 j t False by blast
      ultimately show ?thesis using False by auto
    qed
    then show ?thesis using l by blast
  qed
  have prec: "precedence_kept parameters sched"
    unfolding precedence_kept_def list_all_iff using pk by simp
  show ?thesis using d i1 sel ep no prec by blast
qed

lemma decode_positive_times_example:
  "valid_instance demo \<and> positive_times demo \<and>
   os_legal demo [0, 0, 1, 2] \<and> ms_legal demo [0, 0, 0, 0] \<and>
   decode demo [0, 0, 1, 2] [0, 0, 0, 0] =
     Inr [[(''OP_1-2'', 2, 5, 5), (''OP_2-1'', 3, 0, 0), (''OP_3-1'', 1, 0, 3)],
          [(''OP_1-1'', 5, 0, 0)]] \<and>
   list_all earliest_placed
     [[(''OP_1-2'', 2, 5, 5), (''OP_2-1'', 3, 0, 0), (''OP_3-1'', 1, 0, 3)],
      [(''OP_1-1'', 5, 0, 0)]] \<and>
   precedence_kept demo
     [[(''OP_1-2'', 2, 5, 5), (''OP_2-1'', 3, 0, 0), (''OP_3-1'', 1, 0, 3)],
      [(''OP_1-1'', 5, 0, 0)]]"
proof -
  have h1: "valid_instance demo" by code_simp
  have h2: "positive_times demo" by code_simp
  have h3: "os_legal demo [0, 0, 1, 2]" by code_simp
  have h4: "ms_legal demo [0, 0, 0, 0]" by code_simp
  have d: "decode demo [0, 0, 1, 2] [0, 0, 0, 0] =
     Inr [[(''OP_1-2'', 2, 5, 5), (''OP_2-1'', 3, 0, 0), (''OP_3-1'', 1, 0, 3)],
          [(''OP_1-1'', 5, 0, 0)]]" by code_simp
  show ?thesis
    using h1 h2 h3 h4 d decode_positive_times [OF h1 h2 h3 h4] by simp
qed

text \<open>
  C1. The claim covers every valid instance, and a processing time of \<open>0\<close> is valid. On
  the instance whose only operation takes no time the decoder places nothing: the search
  for a start returns \<^verbatim>\<open>None\<close> and \<^verbatim>\<open>decode\<close> raises \<^verbatim>\<open>TypeError\<close>.
\<close>

theorem decode_zero_time:
  "valid_instance idle \<and> os_legal idle [0] \<and> ms_legal idle [0] \<and>
   decode idle [0] [0] = Inl TypeError"
  by code_simp

subsection \<open>The order of a machine's list\<close>

lemma machine_slot_bound: "machine_slot n mnb = Inr m \<Longrightarrow> m < n"
  by (auto simp: machine_slot_def split: if_splits)

lemma decode_step_appends:
  assumes "decode_step parameters ms_s st job = Inr st'"
  shows "\<exists>m t. m < length (machine_operations st) \<and>
           machine_operations st' =
             (machine_operations st)[m := machine_operations st ! m @ [t]]"
  using assms unfolding decode_step_def bind_err_def
  by (fastforce split: sum.splits option.splits simp del: split_paired_Ex
      dest!: machine_slot_bound)

lemma gantt_order:
  "map snd (translate_decoded_to_gantt sched) =
   map (map (\<lambda>t. (p_start t, p_start t + p_dur t, p_name t))) sched"
proof -
  have "map snd (translate_decoded_to_gantt sched) =
        map (\<lambda>x. map (\<lambda>t. (p_start t, p_start t + p_dur t, p_name t)) (snd x)) (enumerate 0 sched)"
    by (simp add: translate_decoded_to_gantt_def case_prod_beta comp_def)
  also have "\<dots> = map (map (\<lambda>t. (p_start t, p_start t + p_dur t, p_name t)))
                     (map snd (enumerate 0 sched))"
    by (simp only: map_map comp_def)
  also have "map snd (enumerate 0 sched) = sched" by simp
  finally show ?thesis .
qed

text \<open>
  C8 (as amended). Decoding keeps each per-machine list in the order of placement: an
  iteration that returns has extended the list of exactly one machine by one entry at its
  end and left every earlier entry where it was; nothing sorts the lists. The export
  lists, for each machine in turn, the triples \<open>(start, end, label)\<close> of that machine's
  list in the same order.
\<close>

theorem placement_order:
  "(decode_step parameters ms_s st job = Inr st' \<longrightarrow>
      (\<exists>m t. m < length (machine_operations st) \<and>
         machine_operations st' =
           (machine_operations st)[m := machine_operations st ! m @ [t]])) \<and>
   map snd (translate_decoded_to_gantt sched) =
     map (map (\<lambda>t. (p_start t, p_start t + p_dur t, p_name t))) sched"
  using decode_step_appends gantt_order by blast

theorem placement_order_witness:
  "decode_step demo [[0, 0], [0], [0]] demo_st2 1 = Inr demo_st3 \<and>
   (\<exists>m t. m < length (machine_operations demo_st2) \<and>
      machine_operations demo_st3 =
        (machine_operations demo_st2)[m := machine_operations demo_st2 ! m @ [t]])"
proof -
  have s: "decode_step demo [[0, 0], [0], [0]] demo_st2 1 = Inr demo_st3"
    by code_simp
  show ?thesis
    using s placement_order [of demo "[[0, 0], [0], [0]]" demo_st2 1 demo_st3] by blast
qed

text \<open>
  C8 as stated fails on the small instance: operation 1 of job 2 is placed in the gap
  before the entry already on machine 1, and is appended after it.
\<close>

theorem placement_order_counterexample:
  "decode demo [0, 0, 1, 2] [0, 0, 0, 0] =
     Inr [[(''OP_1-2'', 2, 5, 5), (''OP_2-1'', 3, 0, 0), (''OP_3-1'', 1, 0, 3)],
          [(''OP_1-1'', 5, 0, 0)]] \<and>
   translate_decoded_to_gantt
     [[(''OP_1-2'', 2, 5, 5), (''OP_2-1'', 3, 0, 0), (''OP_3-1'', 1, 0, 3)],
      [(''OP_1-1'', 5, 0, 0)]] =
     [(''Machine-1'', [(5, 7, ''OP_1-2''), (0, 3, ''OP_2-1''), (3, 4, ''OP_3-1'')]),
      (''Machine-2'', [(0, 5, ''OP_1-1'')])] \<and>
   \<not> sorted (map p_start [(''OP_1-2'', 2, 5, 5), (''OP_2-1'', 3, 0, 0), (''OP_3-1'', 1, 0, 3)])"
  by code_simp

subsection \<open>Selection is closed\<close>

lemma bind_err_InrE:
  assumes "bind_err r f = Inr y"
  obtains v where "r = Inr v" and "f v = Inr y"
  using assms by (cases r) simp_all

lemma timeTaken_keys_length:
  "timeTaken_keys population parameters = Inr keys \<Longrightarrow> length keys = length population"
proof (induction population arbitrary: keys)
  case Nil
  then show ?case by simp
next
  case (Cons cpl rest)
  then show ?case by (auto elim!: bind_err_InrE)
qed

lemma timeTaken_keys_ok:
  "\<forall>c \<in> set population. \<exists>t. timeTaken c parameters = Inr t \<Longrightarrow>
   \<exists>keys. timeTaken_keys population parameters = Inr keys"
  by (induction population) auto

lemma sorted_pop_set:
  assumes "length keys = length population"
  shows "set (map snd (sort_key fst (zip keys population))) = set population"
    and "length (map snd (sort_key fst (zip keys population))) = length population"
proof -
  have "set (map snd (sort_key fst (zip keys population))) = snd ` set (zip keys population)"
    by simp
  also have "\<dots> = set (map snd (zip keys population))" by simp
  also have "\<dots> = set population" using assms by simp
  finally show "set (map snd (sort_key fst (zip keys population))) = set population" .
  show "length (map snd (sort_key fst (zip keys population))) = length population"
    using assms by simp
qed

lemma elitistSelection_closed:
  assumes "elitistSelection population parameters = Inr elite"
  shows "length elite \<le> length population \<and> set elite \<subseteq> set population"
proof -
  from assms obtain keys where k: "timeTaken_keys population parameters = Inr keys"
    and e: "elite = take (nat \<lfloor>config_pr * real (length population)\<rfloor>)
                     (map snd (sort_key fst (zip keys population)))"
    unfolding elitistSelection_def Let_def by (auto elim!: bind_err_InrE)
  have l: "length keys = length population" using k by (rule timeTaken_keys_length)
  have "set elite \<subseteq> set (map snd (sort_key fst (zip keys population)))"
    unfolding e by (rule set_take_subset)
  then have "set elite \<subseteq> set population" using sorted_pop_set(1) [OF l] by simp
  moreover have "length elite \<le> length population"
    unfolding e using sorted_pop_set(2) [OF l] by simp
  ultimately show ?thesis by simp
qed

lemma tournamentSelection_closed:
  assumes "tournamentSelection population parameters d1 d2 = Inr c"
  shows "c \<in> set population"
  using assms unfolding tournamentSelection_def
  by (auto simp: getitem_def elim!: bind_err_InrE split: if_splits)

lemma tournamentSelection_ok:
  assumes "\<forall>c \<in> set population. \<exists>t. timeTaken c parameters = Inr t"
    and "d1 < length population" and "d2 < length population"
  shows "\<exists>c. tournamentSelection population parameters d1 d2 = Inr c"
proof -
  obtain t1 t2 where "timeTaken (population ! d1) parameters = Inr t1"
    "timeTaken (population ! d2) parameters = Inr t2"
    using assms by (meson nth_mem)
  then show ?thesis using assms(2,3) by (auto simp: tournamentSelection_def getitem_def)
qed

lemma selection_loop_closed:
  assumes "selection_loop population parameters newPop draws = Inr r"
    and "length newPop \<le> length population" and "set newPop \<subseteq> set population"
  shows "length r = length population \<and> set r \<subseteq> set population"
  using assms
proof (induction population parameters newPop draws rule: selection_loop.induct)
  case (1 population parameters newPop draws)
  show ?case
  proof (cases "length newPop < length population")
    case False
    then show ?thesis using "1.prems" by (simp add: selection_loop.simps)
  next
    case True
    from "1.prems"(1) obtain c where
      c: "tournamentSelection population parameters (shd draws) (shd (stl draws)) = Inr c"
      and l: "selection_loop population parameters (newPop @ [c]) (stl (stl draws)) = Inr r"
      using True by (subst (asm) selection_loop.simps) (auto elim!: bind_err_InrE)
    have "c \<in> set population" using c by (rule tournamentSelection_closed)
    then show ?thesis
      using "1.IH" [OF True l] True "1.prems"(3) by simp
  qed
qed

lemma selection_loop_ok:
  assumes "\<forall>c \<in> set population. \<exists>t. timeTaken c parameters = Inr t"
    and "sset draws \<subseteq> {..< length population}"
  shows "\<exists>r. selection_loop population parameters newPop draws = Inr r"
  using assms
proof (induction population parameters newPop draws rule: selection_loop.induct)
  case (1 population parameters newPop draws)
  show ?case
  proof (cases "length newPop < length population")
    case False
    then show ?thesis by (simp add: selection_loop.simps)
  next
    case True
    have d: "shd draws < length population" "shd (stl draws) < length population"
      using "1.prems"(2) shd_sset [of draws] shd_sset [of "stl draws"] stl_sset [of _ draws]
      by auto
    obtain c where
      c: "tournamentSelection population parameters (shd draws) (shd (stl draws)) = Inr c"
      using tournamentSelection_ok [OF "1.prems"(1) d] by blast
    have "sset (stl (stl draws)) \<subseteq> sset draws"
      by (meson stl_sset subsetI)
    then have "sset (stl (stl draws)) \<subseteq> {..< length population}"
      using "1.prems"(2) by (rule subset_trans)
    from "1.IH" [OF True "1.prems"(1) this]
    obtain r where "selection_loop population parameters (newPop @ [c]) (stl (stl draws)) = Inr r"
      by blast
    then show ?thesis using True c by (subst selection_loop.simps) simp
  qed
qed

text \<open>
  C10. Whenever \<^verbatim>\<open>selection\<close> returns, the population it returns has the length of its
  input and holds only chromosomes of its input. It does return when \<^verbatim>\<open>timeTaken\<close>
  returns on every individual and the draws of the tournaments are indices of the
  population.
\<close>

theorem selection_closed:
  "(selection population parameters draws = Inr newPop \<longrightarrow>
      length newPop = length population \<and> set newPop \<subseteq> set population) \<and>
   ((\<forall>c \<in> set population. \<exists>t. timeTaken c parameters = Inr t) \<and>
    sset draws \<subseteq> {..< length population} \<longrightarrow>
      (\<exists>r. selection population parameters draws = Inr r))"
proof (rule conjI; rule impI)
  assume "selection population parameters draws = Inr newPop"
  then obtain elite where e: "elitistSelection population parameters = Inr elite"
    and l: "selection_loop population parameters elite draws = Inr newPop"
    unfolding selection_def by (auto elim!: bind_err_InrE)
  show "length newPop = length population \<and> set newPop \<subseteq> set population"
    using selection_loop_closed [OF l] elitistSelection_closed [OF e] by blast
next
  assume a: "(\<forall>c \<in> set population. \<exists>t. timeTaken c parameters = Inr t) \<and>
    sset draws \<subseteq> {..< length population}"
  then obtain keys where "timeTaken_keys population parameters = Inr keys"
    using timeTaken_keys_ok by blast
  then obtain elite where "elitistSelection population parameters = Inr elite"
    by (simp add: elitistSelection_def Let_def)
  then show "\<exists>r. selection population parameters draws = Inr r"
    using selection_loop_ok [of population parameters draws elite] a
    by (simp add: selection_def)
qed

theorem selection_closed_witness:
  "timeTaken ([0, 0, 1, 2], [0, 0, 0, 0]) demo = Inr 7 \<and>
   timeTaken ([2, 1, 0, 0], [0, 0, 1, 0]) demo = Inr 10 \<and>
   selection [([0, 0, 1, 2], [0, 0, 0, 0]), ([2, 1, 0, 0], [0, 0, 1, 0])] demo (sconst 1) =
     Inr [([2, 1, 0, 0], [0, 0, 1, 0]), ([2, 1, 0, 0], [0, 0, 1, 0])] \<and>
   length [([2, 1, 0, 0], [0, 0, 1, 0]), ([2, 1, 0, 0], [0, 0, 1, 0 :: nat])] =
     length [([0, 0, 1, 2], [0, 0, 0, 0]), ([2, 1, 0, 0], [0, 0, 1, 0 :: nat])] \<and>
   ([2, 1, 0, 0], [0, 0, 1, 0]) \<in>
     set [([0, 0, 1, 2], [0, 0, 0, 0]), ([2, 1, 0, 0], [0 :: nat, 0, 1, 0 :: nat])]"
proof -
  have t0: "timeTaken ([0, 0, 1, 2], [0, 0, 0, 0]) demo = Inr 7" by code_simp
  have t1: "timeTaken ([2, 1, 0, 0], [0, 0, 1, 0]) demo = Inr 10" by code_simp
  have h1: "\<forall>c \<in> set [([0, 0, 1, 2], [0, 0, 0, 0]), ([2, 1, 0, 0], [0, 0, 1, 0])].
      \<exists>t. timeTaken c demo = Inr t"
    using t0 t1 by simp
  have h2: "sset (sconst 1) \<subseteq>
      {..< length [([0, 0, 1, 2], [0, 0, 0, 0]), ([2, 1, 0, 0], [0 :: nat, 0, 1, 0])]}"
    by simp
  have s: "selection [([0, 0, 1, 2], [0, 0, 0, 0]), ([2, 1, 0, 0], [0, 0, 1, 0])] demo (sconst 1) =
     Inr [([2, 1, 0, 0], [0, 0, 1, 0]), ([2, 1, 0, 0], [0, 0, 1, 0])]"
    using t0 t1
    by (simp add: selection_def elitistSelection_def config_pr_def
        selection_loop.simps tournamentSelection_def getitem_def)
  show ?thesis
    using h1 h2 s
      selection_closed [of "[([0, 0, 1, 2], [0, 0, 0, 0]), ([2, 1, 0, 0], [0, 0, 1, 0])]"
        demo "sconst 1" "[([2, 1, 0, 0], [0, 0, 1, 0]), ([2, 1, 0, 0], [0, 0, 1, 0])]"]
      t0 t1
    by simp
qed

subsection \<open>Neighbourhood mutation\<close>

lemma sset_stl_bound: "sset draws \<subseteq> A \<Longrightarrow> sset (stl draws) \<subseteq> A"
  using stl_sset by fastforce

lemma shd_bound: "sset draws \<subseteq> {..< n} \<Longrightarrow> shd draws < n"
  using shd_sset [of draws] by auto

lemma pos2_loop_result:
  assumes "pos2_loop p pos1 pos2 draws = Some y"
  shows "pos1 < length p \<longrightarrow> pos2 < length p \<longrightarrow> sset draws \<subseteq> {..< length p} \<longrightarrow>
         (\<exists>pos rest. y = Inr (pos, rest) \<and> pos < length p \<and> p ! pos \<noteq> p ! pos1 \<and>
            sset rest \<subseteq> {..< length p})"
proof (rule pos2_loop.raw_induct [where P = "\<lambda>p pos1 pos2 draws y.
         pos1 < length p \<longrightarrow> pos2 < length p \<longrightarrow> sset draws \<subseteq> {..< length p} \<longrightarrow>
         (\<exists>pos rest. y = Inr (pos, rest) \<and> pos < length p \<and> p ! pos \<noteq> p ! pos1 \<and>
            sset rest \<subseteq> {..< length p})", OF _ assms])
  fix f :: "nat list \<Rightarrow> nat \<Rightarrow> nat \<Rightarrow> nat stream \<Rightarrow> (error + nat \<times> nat stream) option"
  fix p pos1 pos2 draws y
  assume IH: "\<And>p pos1 pos2 draws y. f p pos1 pos2 draws = Some y \<Longrightarrow>
         pos1 < length p \<longrightarrow> pos2 < length p \<longrightarrow> sset draws \<subseteq> {..< length p} \<longrightarrow>
         (\<exists>pos rest. y = Inr (pos, rest) \<and> pos < length p \<and> p ! pos \<noteq> p ! pos1 \<and>
            sset rest \<subseteq> {..< length p})"
    and eq: "(case getitem p pos2 of Inl e \<Rightarrow> Some (Inl e)
      | Inr v2 \<Rightarrow>
          (case getitem p pos1 of Inl e \<Rightarrow> Some (Inl e)
           | Inr v1 \<Rightarrow> if v2 = v1 then f p pos1 (shd draws) (stl draws)
                        else Some (Inr (pos2, draws)))) = Some y"
  show "pos1 < length p \<longrightarrow> pos2 < length p \<longrightarrow> sset draws \<subseteq> {..< length p} \<longrightarrow>
         (\<exists>pos rest. y = Inr (pos, rest) \<and> pos < length p \<and> p ! pos \<noteq> p ! pos1 \<and>
            sset rest \<subseteq> {..< length p})"
  proof (intro impI)
    assume b: "pos1 < length p" "pos2 < length p" "sset draws \<subseteq> {..< length p}"
    show "\<exists>pos rest. y = Inr (pos, rest) \<and> pos < length p \<and> p ! pos \<noteq> p ! pos1 \<and>
            sset rest \<subseteq> {..< length p}"
    proof (cases "p ! pos2 = p ! pos1")
      case True
      then have r: "f p pos1 (shd draws) (stl draws) = Some y"
        using eq b by (simp add: getitem_def)
      show ?thesis
        using IH [OF r] b(1) shd_bound [OF b(3)] sset_stl_bound [OF b(3)] by blast
    next
      case False
      then have "y = Inr (pos2, draws)" using eq b by (simp add: getitem_def)
      then show ?thesis using False b by blast
    qed
  qed
qed

lemma pos3_loop_result:
  assumes "pos3_loop p pos1 pos2 pos3 draws = Some y"
  shows "pos1 < length p \<longrightarrow> pos2 < length p \<longrightarrow> pos3 < length p \<longrightarrow>
         sset draws \<subseteq> {..< length p} \<longrightarrow>
         (\<exists>pos rest. y = Inr (pos, rest) \<and> pos < length p \<and>
            p ! pos \<noteq> p ! pos2 \<and> p ! pos \<noteq> p ! pos1)"
proof (rule pos3_loop.raw_induct [where P = "\<lambda>p pos1 pos2 pos3 draws y.
         pos1 < length p \<longrightarrow> pos2 < length p \<longrightarrow> pos3 < length p \<longrightarrow>
         sset draws \<subseteq> {..< length p} \<longrightarrow>
         (\<exists>pos rest. y = Inr (pos, rest) \<and> pos < length p \<and>
            p ! pos \<noteq> p ! pos2 \<and> p ! pos \<noteq> p ! pos1)", OF _ assms])
  fix f :: "nat list \<Rightarrow> nat \<Rightarrow> nat \<Rightarrow> nat \<Rightarrow> nat stream \<Rightarrow> (error + nat \<times> nat stream) option"
  fix p pos1 pos2 pos3 draws y
  assume IH: "\<And>p pos1 pos2 pos3 draws y. f p pos1 pos2 pos3 draws = Some y \<Longrightarrow>
         pos1 < length p \<longrightarrow> pos2 < length p \<longrightarrow> pos3 < length p \<longrightarrow>
         sset draws \<subseteq> {..< length p} \<longrightarrow>
         (\<exists>pos rest. y = Inr (pos, rest) \<and> pos < length p \<and>
            p ! pos \<noteq> p ! pos2 \<and> p ! pos \<noteq> p ! pos1)"
    and eq: "(case getitem p pos3 of Inl e \<Rightarrow> Some (Inl e)
      | Inr v3 \<Rightarrow>
          (case getitem p pos2 of Inl e \<Rightarrow> Some (Inl e)
           | Inr v2 \<Rightarrow>
               if v3 = v2 then f p pos1 pos2 (shd draws) (stl draws)
               else
                 (case getitem p pos1 of Inl e \<Rightarrow> Some (Inl e)
                  | Inr v1 \<Rightarrow> if v3 = v1 then f p pos1 pos2 (shd draws) (stl draws)
                               else Some (Inr (pos3, draws))))) = Some y"
  show "pos1 < length p \<longrightarrow> pos2 < length p \<longrightarrow> pos3 < length p \<longrightarrow>
         sset draws \<subseteq> {..< length p} \<longrightarrow>
         (\<exists>pos rest. y = Inr (pos, rest) \<and> pos < length p \<and>
            p ! pos \<noteq> p ! pos2 \<and> p ! pos \<noteq> p ! pos1)"
  proof (intro impI)
    assume b: "pos1 < length p" "pos2 < length p" "pos3 < length p"
      "sset draws \<subseteq> {..< length p}"
    show "\<exists>pos rest. y = Inr (pos, rest) \<and> pos < length p \<and>
            p ! pos \<noteq> p ! pos2 \<and> p ! pos \<noteq> p ! pos1"
    proof (cases "p ! pos3 = p ! pos2 \<or> p ! pos3 = p ! pos1")
      case True
      then have r: "f p pos1 pos2 (shd draws) (stl draws) = Some y"
        using eq b by (auto simp: getitem_def split: if_splits)
      show ?thesis
        using IH [OF r] b(1,2) shd_bound [OF b(4)] sset_stl_bound [OF b(4)] by blast
    next
      case False
      then have "y = Inr (pos3, draws)" using eq b by (simp add: getitem_def)
      then show ?thesis using False b by blast
    qed
  qed
qed

lemma three_values:
  assumes "a \<in> set p" and "b \<in> set p" and "c \<in> set p"
    and "b \<noteq> a" and "c \<noteq> b" and "c \<noteq> a"
  shows "3 \<le> card (set p)"
proof -
  have "card {a, b, c} = 3" using assms(4,5,6) by simp
  moreover have "card {a, b, c} \<le> card (set p)"
    using assms(1,2,3) by (intro card_mono) simp_all
  ultimately show ?thesis by simp
qed

lemma neighborhood_never_returns:
  assumes "card (set p) < 3" and "p \<noteq> []" and "sset draws \<subseteq> {..< length p}"
  shows "neighborhoodMutation p draws = None"
proof -
  let ?pos1 = "shd draws"
  have p1: "?pos1 < length p" using assms(3) by (rule shd_bound)
  have d1: "sset (stl draws) \<subseteq> {..< length p}" using assms(3) by (rule sset_stl_bound)
  show ?thesis
  proof (cases "pos2_loop p ?pos1 ?pos1 (stl draws)")
    case None
    then show ?thesis using assms(2) by (simp add: neighborhoodMutation_def)
  next
    case (Some y)
    from pos2_loop_result [OF Some] p1 d1 obtain pos2 rest where
      y: "y = Inr (pos2, rest)" "pos2 < length p" "p ! pos2 \<noteq> p ! ?pos1"
        "sset rest \<subseteq> {..< length p}"
      by blast
    have "pos3_loop p ?pos1 pos2 ?pos1 rest = None"
    proof (rule ccontr)
      assume "pos3_loop p ?pos1 pos2 ?pos1 rest \<noteq> None"
      then obtain y' where "pos3_loop p ?pos1 pos2 ?pos1 rest = Some y'" by auto
      from pos3_loop_result [OF this] p1 y(2,4) obtain pos3 where
        "pos3 < length p" "p ! pos3 \<noteq> p ! pos2" "p ! pos3 \<noteq> p ! ?pos1"
        by blast
      then have "3 \<le> card (set p)"
        using three_values [of "p ! ?pos1" p "p ! pos2" "p ! pos3"] p1 y(2,3) by simp
      then show False using assms(1) by simp
    qed
    then show ?thesis using assms(2) Some y(1) by (simp add: neighborhoodMutation_def)
  qed
qed

lemma pos2_loop_step:
  assumes "pos1 < length p" and "b < length p" and "p ! b = p ! pos1"
  shows "pos2_loop p pos1 b (x ## s) = pos2_loop p pos1 x s"
  using assms by (subst pos2_loop.simps) (simp add: getitem_def)

lemma pos2_loop_stop:
  assumes "pos1 < length p" and "b < length p" and "p ! b \<noteq> p ! pos1"
  shows "pos2_loop p pos1 b s = Some (Inr (b, s))"
  using assms by (subst pos2_loop.simps) (simp add: getitem_def)

lemma pos2_loop_retries:
  assumes "pos1 < length p" and "b < length p" and "p ! b = p ! pos1"
    and "\<forall>x \<in> set bad. x < length p \<and> p ! x = p ! pos1"
    and "g2 < length p" and "p ! g2 \<noteq> p ! pos1"
  shows "pos2_loop p pos1 b (bad @- (g2 ## s)) = Some (Inr (g2, s))"
  using assms(2,3,4)
proof (induction bad arbitrary: b)
  case Nil
  then show ?case
    using assms(1,5,6) by (simp add: pos2_loop_step pos2_loop_stop)
next
  case (Cons x bad)
  have "pos2_loop p pos1 b ((x # bad) @- (g2 ## s)) = pos2_loop p pos1 x (bad @- (g2 ## s))"
    using Cons.prems assms(1) by (simp add: pos2_loop_step)
  also have "\<dots> = Some (Inr (g2, s))"
    using Cons.IH [of x] Cons.prems(3) by simp
  finally show ?case .
qed

lemma pos3_loop_step:
  assumes "pos1 < length p" and "pos2 < length p" and "b < length p"
    and "p ! b = p ! pos2 \<or> p ! b = p ! pos1"
  shows "pos3_loop p pos1 pos2 b (x ## s) = pos3_loop p pos1 pos2 x s"
  using assms by (subst pos3_loop.simps) (auto simp: getitem_def)

lemma pos3_loop_stop:
  assumes "pos1 < length p" and "pos2 < length p" and "b < length p"
    and "p ! b \<noteq> p ! pos2" and "p ! b \<noteq> p ! pos1"
  shows "pos3_loop p pos1 pos2 b s = Some (Inr (b, s))"
  using assms by (subst pos3_loop.simps) (simp add: getitem_def)

lemma pos3_loop_retries:
  assumes "pos1 < length p" and "pos2 < length p" and "b < length p"
    and "p ! b = p ! pos2 \<or> p ! b = p ! pos1"
    and "\<forall>x \<in> set bad. x < length p \<and> (p ! x = p ! pos2 \<or> p ! x = p ! pos1)"
    and "g3 < length p" and "p ! g3 \<noteq> p ! pos2" and "p ! g3 \<noteq> p ! pos1"
  shows "pos3_loop p pos1 pos2 b (bad @- (g3 ## s)) = Some (Inr (g3, s))"
  using assms(3,4,5)
proof (induction bad arbitrary: b)
  case Nil
  then show ?case
    using assms(1,2,6,7,8) by (simp add: pos3_loop_step pos3_loop_stop)
next
  case (Cons x bad)
  have "pos3_loop p pos1 pos2 b ((x # bad) @- (g3 ## s)) =
        pos3_loop p pos1 pos2 x (bad @- (g3 ## s))"
    using Cons.prems assms(1,2) by (simp add: pos3_loop_step)
  also have "\<dots> = Some (Inr (g3, s))"
    using Cons.IH [of x] Cons.prems(3) by simp
  finally show ?case .
qed

lemma sort3:
  assumes "distinct [a, b, c :: nat]"
  shows "sort [a, b, c] ! 0 < sort [a, b, c] ! 1 \<and> sort [a, b, c] ! 1 < sort [a, b, c] ! 2 \<and>
         sort [a, b, c] ! 2 \<in> {a, b, c}"
  using assms by (auto simp: insort_key.simps)

lemma rearrange_ok:
  assumes "pos1 < length p" and "pos2 < length p" and "pos3 < length p"
    and "distinct [pos1, pos2, pos3]" and "choice < 6"
  shows "\<exists>off. rearrange p pos1 pos2 pos3 choice = Inr off \<and> length off = length p"
proof -
  define s where "s = sort [pos1, pos2, pos3]"
  have o: "s ! 0 < s ! 1" "s ! 1 < s ! 2" "s ! 2 \<in> {pos1, pos2, pos3}"
    using sort3 [OF assms(4)] by (simp_all add: s_def)
  have b: "s ! 2 < length p" using o(3) assms(1,2,3) by auto
  have g: "getitem p (s ! 0) = Inr (p ! (s ! 0))" "getitem p (s ! 1) = Inr (p ! (s ! 1))"
    "getitem p (s ! 2) = Inr (p ! (s ! 2))"
    using o b by (simp_all add: getitem_def)
  have c: "getitem [[e1, e2, e3], [e1, e3, e2], [e2, e1, e3], [e2, e3, e1], [e3, e1, e2],
                   [e3, e2, e1]] choice =
           Inr ([[e1, e2, e3], [e1, e3, e2], [e2, e1, e3], [e2, e3, e1], [e3, e1, e2],
                 [e3, e2, e1]] ! choice)" for e1 e2 e3 :: nat
    using assms(5) by (simp add: getitem_def)
  show ?thesis
    unfolding rearrange_def Let_def s_def [symmetric] g c bind_err_Inr
    using o(1,2) b by (simp add: slice_def)
qed

text \<open>
  On a sequence that holds three distinct values the mutation returns once the draws give
  a second and a third position with mutually distinct values, however many draws failed
  before (the lists \<open>bad2\<close> and \<open>bad3\<close>): it returns the parent with the three values
  rearranged, a sequence of the parent's length.
\<close>

lemma neighborhood_resamples:
  assumes "pos1 < length p" and "g2 < length p" and "g3 < length p"
    and "p ! g2 \<noteq> p ! pos1" and "p ! g3 \<noteq> p ! g2" and "p ! g3 \<noteq> p ! pos1"
    and "\<forall>x \<in> set bad2. x < length p \<and> p ! x = p ! pos1"
    and "\<forall>x \<in> set bad3. x < length p \<and> (p ! x = p ! g2 \<or> p ! x = p ! pos1)"
    and "choice < 6"
  shows "neighborhoodMutation p (pos1 ## (bad2 @- (g2 ## (bad3 @- (g3 ## choice ## s))))) =
           Some (rearrange p pos1 g2 g3 choice) \<and>
         (\<exists>off. rearrange p pos1 g2 g3 choice = Inr off \<and> length off = length p)"
proof -
  have l2: "pos2_loop p pos1 pos1 (bad2 @- (g2 ## (bad3 @- (g3 ## choice ## s)))) =
            Some (Inr (g2, bad3 @- (g3 ## choice ## s)))"
    using assms(1,2,4,7) by (intro pos2_loop_retries) simp_all
  have l3: "pos3_loop p pos1 g2 pos1 (bad3 @- (g3 ## choice ## s)) =
            Some (Inr (g3, choice ## s))"
    using assms(1,2,3,5,6,8) by (intro pos3_loop_retries) simp_all
  have "p \<noteq> []" using assms(1) by auto
  then have r: "neighborhoodMutation p (pos1 ## (bad2 @- (g2 ## (bad3 @- (g3 ## choice ## s))))) =
           Some (rearrange p pos1 g2 g3 choice)"
    by (simp add: neighborhoodMutation_def l2 l3)
  have "distinct [pos1, g2, g3]" using assms(4,5,6) by auto
  from rearrange_ok [OF assms(1,2,3) this assms(9)] r show ?thesis by blast
qed

lemma neighborhood_resamples_example:
  "neighborhoodMutation [0, 0, 1, 2] (0 ## ([1, 0] @- (2 ## ([1, 2, 0] @- (3 ## 4 ## sconst 0))))) =
     Some (Inr [2, 0, 0, 1])"
proof -
  have r: "rearrange [0, 0, 1, 2] 0 2 3 4 = Inr [2, 0, 0, 1]" by code_simp
  show ?thesis
    using r neighborhood_resamples [of 0 "[0, 0, 1, 2]" 2 3 "[1, 0]" "[1, 2, 0]" 4 "sconst 0"]
    by simp
qed

text \<open>
  C7. The claim asks that \<^verbatim>\<open>neighborhoodMutation\<close> terminates on every operation sequence,
  with a bounded number of retries and a fallback to \<^verbatim>\<open>swappingMutation\<close>. The two loops
  have no counter and nothing falls back: on a non-empty operation sequence with fewer than
  three distinct values, whatever positions within the sequence are drawn,
  \<^verbatim>\<open>neighborhoodMutation\<close> never returns, and neither does \<^verbatim>\<open>mutationOS\<close> when its coin
  selects it.
\<close>

theorem neighborhoodMutation_hangs:
  assumes "card (set p) < 3" and "p \<noteq> []" and "sset draws \<subseteq> {..< length p}"
  shows "neighborhoodMutation p draws = None \<and> mutationOS p False draws = None"
  using neighborhood_never_returns [OF assms] by (simp add: mutationOS_def)

theorem neighborhoodMutation_hangs_witness:
  "neighborhoodMutation [0, 1, 0, 1] (0 ## 1 ## sconst 2) = None \<and>
   mutationOS [0, 1, 0, 1] False (0 ## 1 ## sconst 2) = None"
proof -
  have c: "card (set [0, 1, 0, 1 :: nat]) < 3" by code_simp
  have d: "sset (0 ## 1 ## sconst 2) \<subseteq> {..< length [0, 1, 0, 1 :: nat]}" by simp
  show ?thesis
    using neighborhoodMutation_hangs [of "[0, 1, 0, 1]" "0 ## 1 ## sconst 2"] c d by simp
qed

text \<open>
  The sibling \<^verbatim>\<open>swappingMutation\<close> draws its two positions once and returns on every
  sequence, whatever positions within the sequence are drawn.
\<close>

lemma swappingMutation_returns:
  assumes "draw1 < length p" and "draw2 < length p"
  shows "\<exists>off. swappingMutation p draw1 draw2 = Inr off"
  using assms by (auto simp: swappingMutation_def getitem_def Let_def)

subsection \<open>Half mutation writes in place\<close>

lemma halfMutation_loop_frame:
  "halfMutation_loop h o_ref ops i positions draws = Inr h' \<Longrightarrow> r \<noteq> o_ref \<Longrightarrow> h' r = h r"
proof (induction ops arbitrary: h i draws)
  case Nil
  then show ?case by simp
next
  case (Cons op ops)
  show ?case
  proof (cases "i \<in> set positions")
    case False
    then show ?thesis using Cons by simp
  next
    case True
    then obtain xs where
      "halfMutation_loop (h(o_ref := xs)) o_ref ops (i + 1) positions (stl draws) = Inr h'"
      using Cons.prems(1) by (auto split: if_splits elim!: bind_err_InrE)
    from Cons.IH [OF this Cons.prems(2)] show ?thesis using Cons.prems(2) by simp
  qed
qed

text \<open>
  Whenever \<^verbatim>\<open>halfMutation\<close> returns, it returns the reference it was given, and the store
  is unchanged at every other reference: all its writes go into its argument.
\<close>

lemma halfMutation_in_place:
  assumes "halfMutation h p parameters positions draws = Inr (r, h')"
  shows "r = p \<and> (\<forall>q. q \<noteq> p \<longrightarrow> h' q = h q)"
  using assms halfMutation_loop_frame
  by (fastforce simp: halfMutation_def elim!: bind_err_InrE)

text \<open>
  C3. The claim asks that \<^verbatim>\<open>halfMutation\<close> (\<^verbatim>\<open>mutationMS\<close>) returns a new sequence and
  leaves its argument unmodified. On the machine selection \<open>[0, 0, 0, 0]\<close> of the small
  instance, with positions \<open>2\<close> and \<open>0\<close> selected and the draws \<open>0\<close> and \<open>1\<close>, it returns the
  reference it was given, and the list at that reference has become \<open>[0, 0, 1, 0]\<close>.
\<close>

theorem halfMutation_writes_parent:
  "demo_store 0 = [0, 0, 0, 0] \<and>
   (\<exists>h'. mutationMS demo_store 0 demo [2, 0] (0 ## 1 ## sconst 0) = Inr (0, h') \<and>
         h' 0 = [0, 0, 1, 0])"
  by (simp add: mutationMS_def halfMutation_def demo_store_def demo_def setitem_def)

subsection \<open>The reward of a generation\<close>

text \<open>
  Every placement made by \<^verbatim>\<open>decode\<close> appends one entry to one machine's list, at the start
  that \<^verbatim>\<open>find_first_available_place\<close> returned; entries are never removed.
\<close>

lemma decode_step_places:
  assumes "decode_step parameters ms_s st job = Inr st'"
  shows "\<exists>m t. m < length (machine_operations st) \<and>
           machine_operations st' =
             (machine_operations st)[m := machine_operations st ! m @ [t]] \<and>
           find_first_available_place (p_cstr t) (p_dur t) (machine_operations st ! m) =
             Inr (Some (p_start t))"
proof -
  from assms obtain m d c s n where
    "m < length (machine_operations st)"
    "find_first_available_place c d (machine_operations st ! m) = Inr (Some s)"
    "machine_operations st' =
       (machine_operations st)[m := machine_operations st ! m @ [(n, d, c, s)]]"
    unfolding decode_step_def
    by (auto elim!: bind_err_InrE split: option.splits dest!: machine_slot_bound)
  then show ?thesis
    by (intro exI [of _ m] exI [of _ "(n, d, c, s)"])
       (simp add: p_cstr_def p_dur_def p_start_def)
qed

text \<open>On an empty machine a start is returned only for a duration of at least \<open>1\<close>.\<close>

lemma first_place_positive:
  assumes "find_first_available_place c d [] = Inr (Some s)"
  shows "0 < d"
proof (rule ccontr)
  assume "\<not> 0 < d"
  then have "find_first_available_place c d [] = Inr None"
    using find_first_available_place_zero [of "[]" c] by simp
  with assms show False by simp
qed

lemma decode_loop_grows:
  "decode_loop parameters ms_s st os = Inr st' \<Longrightarrow>
   length (machine_operations st') = length (machine_operations st) \<and>
   (\<forall>m < length (machine_operations st).
      set (machine_operations st ! m) \<subseteq> set (machine_operations st' ! m))"
proof (induction os arbitrary: st)
  case Nil
  then show ?case by simp
next
  case (Cons job os)
  from Cons.prems obtain st1 where
    s: "decode_step parameters ms_s st job = Inr st1"
    and l: "decode_loop parameters ms_s st1 os = Inr st'"
    by (auto elim!: bind_err_InrE)
  from decode_step_appends [OF s] obtain m t where
    m: "m < length (machine_operations st)"
      "machine_operations st1 = (machine_operations st)[m := machine_operations st ! m @ [t]]"
    by blast
  have l1: "length (machine_operations st1) = length (machine_operations st)"
    using m(2) by simp
  have "set (machine_operations st ! n) \<subseteq> set (machine_operations st1 ! n)"
    if "n < length (machine_operations st)" for n
    using that m by (auto simp: nth_list_update)
  then show ?case using Cons.IH [OF l] l1 by fastforce
qed

text \<open>
  A makespan is at least the end of every placed operation, so an individual with at least
  one operation has a makespan of at least \<open>1\<close> whenever \<^verbatim>\<open>timeTaken\<close> returns.
\<close>

lemma fold_max_end:
  "a \<le> fold (\<lambda>job max_d. if p_start job + p_dur job > max_d
                            then p_start job + p_dur job else max_d) js a \<and>
   (\<forall>t \<in> set js. p_start t + p_dur t \<le>
      fold (\<lambda>job max_d. if p_start job + p_dur job > max_d
                         then p_start job + p_dur job else max_d) js a)"
proof (induction js arbitrary: a)
  case Nil
  then show ?case by simp
next
  case (Cons job js)
  let ?a' = "if p_start job + p_dur job > a then p_start job + p_dur job else a"
  have "a \<le> ?a'" "p_start job + p_dur job \<le> ?a'" by simp_all
  then show ?case using Cons.IH [of ?a'] by (auto intro: order_trans)
qed

lemma max_end_ge: "t \<in> set js \<Longrightarrow> p_start t + p_dur t \<le> max_end js"
  using fold_max_end [of 0 js] by (simp add: max_end_def)

lemma timeTaken_positive:
  assumes "timeTaken (os, ms) parameters = Inr b" and "os \<noteq> []"
  shows "1 \<le> b"
proof -
  define ms_s where "ms_s = split_ms parameters ms"
  define st0 where "st0 = decode_init parameters ms_s"
  have "\<exists>st. decode_loop parameters ms_s st0 os = Inr st \<and>
          b = Max (max_end ` set (machine_operations st))"
    using assms(1) unfolding timeTaken_def decode_def Let_def ms_s_def st0_def
    by (auto elim!: bind_err_InrE split: if_splits)
  then obtain st where
    l: "decode_loop parameters ms_s st0 os = Inr st"
    and b: "b = Max (max_end ` set (machine_operations st))"
    by blast
  from assms(2) obtain job rest where os: "os = job # rest" by (cases os) auto
  from l obtain st1 where
    s: "decode_step parameters ms_s st0 job = Inr st1"
    and l1: "decode_loop parameters ms_s st1 rest = Inr st"
    unfolding os by (auto elim!: bind_err_InrE)
  from decode_step_places [OF s] obtain m t where
    m: "m < length (machine_operations st0)"
    and u: "machine_operations st1 =
              (machine_operations st0)[m := machine_operations st0 ! m @ [t]]"
    and f: "find_first_available_place (p_cstr t) (p_dur t) (machine_operations st0 ! m) =
              Inr (Some (p_start t))"
    by blast
  have "machine_operations st0 ! m = []"
    using m by (simp add: st0_def decode_init_def)
  then have d: "0 < p_dur t" using f first_place_positive by simp
  have m1: "m < length (machine_operations st1)" using m u by simp
  have "t \<in> set (machine_operations st1 ! m)" using m u by simp
  then have t: "t \<in> set (machine_operations st ! m)"
    and m2: "m < length (machine_operations st)"
    using decode_loop_grows [OF l1] m1 by auto
  have "1 \<le> p_start t + p_dur t" using d by simp
  also have "\<dots> \<le> max_end (machine_operations st ! m)" using t by (rule max_end_ge)
  also have "\<dots> \<le> b"
    unfolding b using m2 by (intro Max_ge) auto
  finally show ?thesis .
qed


text \<open>
  \<^verbatim>\<open>min(population, key=...)\<close> returns a member of the population whose makespan is the
  best makespan of the population.
\<close>

lemma timeTaken_keys_nth:
  "timeTaken_keys population parameters = Inr keys \<Longrightarrow>
   (k, c) \<in> set (zip keys population) \<Longrightarrow> timeTaken c parameters = Inr k"
proof (induction population arbitrary: keys)
  case Nil
  then show ?case by simp
next
  case (Cons cpl rest)
  then show ?case by (auto elim!: bind_err_InrE)
qed

lemma min_by_key_least:
  "\<exists>k'. (k', min_by_key k x rest) \<in> set ((k, x) # rest) \<and>
        (\<forall>p \<in> set ((k, x) # rest). k' \<le> fst p)"
proof (induction rest arbitrary: k x)
  case Nil
  then show ?case by simp
next
  case (Cons p rest)
  obtain k1 x1 where p: "p = (k1, x1)" by (cases p)
  show ?case
  proof (cases "k1 < k")
    case True
    from Cons.IH [of k1 x1] obtain k' where
      "(k', min_by_key k1 x1 rest) \<in> set ((k1, x1) # rest)"
      "\<forall>q \<in> set ((k1, x1) # rest). k' \<le> fst q"
      by blast
    then show ?thesis using True p by (intro exI [of _ k']) auto
  next
    case False
    from Cons.IH [of k x] obtain k' where
      "(k', min_by_key k x rest) \<in> set ((k, x) # rest)"
      "\<forall>q \<in> set ((k, x) # rest). k' \<le> fst q"
      by blast
    then show ?thesis using False p by (intro exI [of _ k']) auto
  qed
qed

lemma best_of_best:
  assumes "best_of population parameters = Inr best"
  shows "\<exists>b. best \<in> set population \<and> timeTaken best parameters = Inr b \<and>
             best_makespan population parameters b"
proof -
  from assms obtain keys where
    keys: "timeTaken_keys population parameters = Inr keys"
    and c: "(case zip keys population of [] \<Rightarrow> Inl ValueError
            | (k, cpl) # rest \<Rightarrow> Inr (min_by_key k cpl rest)) = Inr best"
    unfolding best_of_def by (auto elim!: bind_err_InrE)
  from c obtain k cpl rest where
    z: "zip keys population = (k, cpl) # rest" and best: "best = min_by_key k cpl rest"
    by (auto split: list.splits)
  from min_by_key_least [of k cpl rest] obtain b where
    mem: "(b, best) \<in> set (zip keys population)"
    and least: "\<forall>p \<in> set (zip keys population). b \<le> fst p"
    unfolding z best by blast
  have len: "length keys = length population" using keys by (rule timeTaken_keys_length)
  have t: "timeTaken best parameters = Inr b" using keys mem by (rule timeTaken_keys_nth)
  have inp: "best \<in> set population" using mem by (rule set_zip_rightD)
  have "\<exists>t. timeTaken c parameters = Inr t \<and> b \<le> t" if "c \<in> set population" for c
  proof -
    from that obtain i where i: "i < length population" "population ! i = c"
      by (auto simp: in_set_conv_nth)
    then have m: "(keys ! i, c) \<in> set (zip keys population)"
      using len by (auto simp: set_zip)
    then have "timeTaken c parameters = Inr (keys ! i)" using keys timeTaken_keys_nth by blast
    moreover have "b \<le> keys ! i" using least m by force
    ultimately show ?thesis by simp
  qed
  then have "case timeTaken c parameters of Inl e \<Rightarrow> False | Inr t \<Rightarrow> b \<le> t"
    if "c \<in> set population" for c
    using that by fastforce
  then have "list_all (\<lambda>c. case timeTaken c parameters of Inl e \<Rightarrow> False | Inr t \<Rightarrow> b \<le> t)
               population"
    by (auto simp: list_all_iff)
  moreover have "list_ex (\<lambda>c. timeTaken c parameters = Inr b) population"
    using inp t by (auto simp: list_ex_iff)
  ultimately show ?thesis using inp t by (auto simp: best_makespan_def)
qed

lemma best_makespan_unique:
  "best_makespan population parameters b \<Longrightarrow> best_makespan population parameters b' \<Longrightarrow> b = b'"
  by (fastforce simp: best_makespan_def list_all_iff list_ex_iff)

lemma best_of_returns:
  assumes "population \<noteq> []"
    and "\<forall>c \<in> set population. \<exists>t. timeTaken c parameters = Inr t"
  shows "\<exists>best. best_of population parameters = Inr best"
proof -
  from timeTaken_keys_ok [OF assms(2)] obtain keys where
    keys: "timeTaken_keys population parameters = Inr keys" by blast
  then have "length keys = length population" by (rule timeTaken_keys_length)
  with assms(1) obtain k cpl rest where "zip keys population = (k, cpl) # rest"
    by (cases keys; cases population) auto
  then show ?thesis using keys by (simp add: best_of_def)
qed

text \<open>
  The chart of the initial best individual is drawn before the loop, and drawing raises on
  a schedule without operations: the loop is reached only with individuals that hold at
  least one operation, that is, on an instance with \<open>0 < total_ops\<close>.
\<close>

lemma decode_empty:
  "decode parameters [] ms = Inr (replicate (machinesNb parameters) [])"
  by (simp add: decode_def decode_init_def)

lemma chart_needs_operation:
  assumes "decode parameters os ms = Inr sched"
    and "draw_chart_xlim (translate_decoded_to_gantt sched) = Inr x"
  shows "os \<noteq> []"
proof
  assume "os = []"
  then have "sched = replicate (machinesNb parameters) []"
    using assms(1) by (simp add: decode_empty)
  then have "draw_chart_xlim (translate_decoded_to_gantt sched) = Inl ValueError"
    by (auto simp: draw_chart_xlim_def translate_decoded_to_gantt_def in_set_enumerate_eq)
  with assms(2) show False by simp
qed

lemma os_legal_nonempty:
  "os_legal parameters os \<Longrightarrow> 0 < total_ops parameters \<Longrightarrow> os \<noteq> []"
  by (auto simp: os_legal_def)

text \<open>
  C5. In a generation let \<open>population\<close> be the population before selection, crossover and
  mutation and \<open>new_population\<close> the population after them, whatever these operators
  return. On an instance with at least one operation and a population of legal operation
  sequences, whenever the two calls of \<^verbatim>\<open>min\<close> return, the best makespan \<open>b\<close> before and
  the best makespan \<open>b'\<close> after exist, \<open>b\<close> is at least \<open>1\<close>, and the reward of the
  generation is \<open>(b - b') / b\<close>: the division never fails, and the case \<open>b = 0\<close> does not
  arise.
\<close>

theorem generation_reward_formula:
  assumes "0 < total_ops parameters"
    and "list_all (\<lambda>c. os_legal parameters (fst c)) population"
    and "best_of population parameters = Inr best_individual"
    and "best_of new_population parameters = Inr new_best_individual"
  shows "\<exists>b b'. best_makespan population parameters b \<and>
                 best_makespan new_population parameters b' \<and>
                 1 \<le> b \<and>
                 generation_reward population new_population parameters =
                   Inr ((real b - real b') / real b)"
proof -
  from best_of_best [OF assms(3)] obtain b where
    b: "best_individual \<in> set population" "timeTaken best_individual parameters = Inr b"
       "best_makespan population parameters b"
    by blast
  from best_of_best [OF assms(4)] obtain b' where
    b': "timeTaken new_best_individual parameters = Inr b'"
        "best_makespan new_population parameters b'"
    by blast
  have "os_legal parameters (fst best_individual)"
    using assms(2) b(1) by (simp add: list_all_iff)
  then have "fst best_individual \<noteq> []" using assms(1) by (rule os_legal_nonempty)
  then have pos: "1 \<le> b"
    using b(2) timeTaken_positive [of "fst best_individual" "snd best_individual" parameters b]
    by simp
  have "generation_reward population new_population parameters =
          Inr ((real b - real b') / real b)"
    using assms(3,4) b(2) b'(1) pos by (simp add: generation_reward_def reward_def)
  then show ?thesis using b(3) b'(2) pos by blast
qed


theorem generation_reward_formula_witness:
  "best_makespan [([0, 0, 1, 2], [0, 0, 0, 0]), ([2, 1, 0, 0], [0, 0, 1, 0])] demo 7 \<and>
   best_makespan [([2, 1, 0, 0], [0, 0, 1, 0]), ([2, 1, 0, 0], [0, 0, 1, 0])] demo 10 \<and>
   generation_reward [([0, 0, 1, 2], [0, 0, 0, 0]), ([2, 1, 0, 0], [0, 0, 1, 0])]
     [([2, 1, 0, 0], [0, 0, 1, 0]), ([2, 1, 0, 0], [0, 0, 1, 0])] demo = Inr (- (3 / 7))"
proof -
  let ?c0 = "([0, 0, 1, 2], [0, 0, 0, 0]) :: chromosome"
  let ?c1 = "([2, 1, 0, 0], [0, 0, 1, 0]) :: chromosome"
  have t0: "timeTaken ?c0 demo = Inr 7" by code_simp
  have t1: "timeTaken ?c1 demo = Inr 10" by code_simp
  have h1: "0 < total_ops demo" by code_simp
  have h2: "list_all (\<lambda>c. os_legal demo (fst c)) [?c0, ?c1]" by code_simp
  have h3: "best_of [?c0, ?c1] demo = Inr ?c0" using t0 t1 by (simp add: best_of_def)
  have h4: "best_of [?c1, ?c1] demo = Inr ?c1" using t1 by (simp add: best_of_def)
  have m0: "best_makespan [?c0, ?c1] demo 7" using t0 t1 by (simp add: best_makespan_def)
  have m1: "best_makespan [?c1, ?c1] demo 10" using t1 by (simp add: best_makespan_def)
  from generation_reward_formula [OF h1 h2 h3 h4] obtain b b' where
    b: "best_makespan [?c0, ?c1] demo b" and b': "best_makespan [?c1, ?c1] demo b'"
    and r: "generation_reward [?c0, ?c1] [?c1, ?c1] demo = Inr ((real b - real b') / real b)"
    by blast
  have "b = 7" using b m0 by (rule best_makespan_unique)
  moreover have "b' = 10" using b' m1 by (rule best_makespan_unique)
  ultimately show ?thesis using m0 m1 r by simp
qed

end
